theory Spec2Isabelle
  imports Main
begin

section \<open>Python exceptions\<close>

text \<open>
  The notebooks signal failure by raising. Each exception class that the modelled code
  can raise is a constructor; a function that may raise returns \<open>error + 'a\<close>.
  \<open>ValueError\<close> is what the source raises for an argument outside the domain (the
  spec's \<open>InvalidArgument\<close>); the other three are raised by the interpreter or by
  NumPy in the middle of a computation.
\<close>

datatype error = ValueError | ZeroDivisionError | IndexError | KeyError

text \<open>Sequencing: the first exception raised ends the computation.\<close>

definition bind_err :: "error + 'a \<Rightarrow> ('a \<Rightarrow> error + 'b) \<Rightarrow> error + 'b" where
  "bind_err r f = (case r of Inl e \<Rightarrow> Inl e | Inr v \<Rightarrow> f v)"

lemma bind_err_simps [simp]:
  "bind_err (Inl e) f = Inl e"
  "bind_err (Inr v) f = f v"
  by (simp_all add: bind_err_def)

section \<open>Integer roots (notebook "Integer Roots and Perfect Powers")\<close>

subsection \<open>Definitions\<close>

text \<open>
  \<open>int.bit_length()\<close>: the number of bits of the absolute value, \<open>0\<close> for \<open>0\<close>.
\<close>

fun bit_length_nat :: "nat \<Rightarrow> nat" where
  "bit_length_nat n = (if n = 0 then 0 else Suc (bit_length_nat (n div 2)))"

declare bit_length_nat.simps [simp del]

definition bit_length :: "int \<Rightarrow> int" where
  "bit_length n = int (bit_length_nat (nat \<bar>n\<bar>))"

text \<open>
  Floor division never grows the absolute value. The termination proofs of the two
  square-root loops rest on this bound, because the loops are defined on all integers,
  as in the source, where nothing guards \<open>newton\<close> and \<open>binary\<close>.
\<close>

lemma abs_div_le_abs:
  fixes n x :: int
  assumes "x \<noteq> 0"
  shows "\<bar>n div x\<bar> \<le> \<bar>n\<bar>"
proof -
  have pos: "\<bar>m div d\<bar> \<le> \<bar>m\<bar>" if d: "0 < d" for m d :: int
  proof -
    define q where "q = m div d"
    have eq: "m = d * q + m mod d"
      unfolding q_def by simp
    have lo: "d * q \<le> m"
      using eq pos_mod_sign [OF d, of m] by linarith
    have hi: "m < d * q + d"
      using eq pos_mod_bound [OF d, of m] by linarith
    show ?thesis
    proof (cases "0 \<le> q")
      case True
      have "q * 1 \<le> q * d" using True d by (intro mult_left_mono) auto
      then show ?thesis using lo True unfolding q_def [symmetric] by (simp add: mult.commute)
    next
      case False
      then have "q + 1 \<le> 0" by simp
      then have "(q + 1) * d \<le> (q + 1) * 1" using d by (intro mult_left_mono_neg) auto
      then show ?thesis using hi False unfolding q_def [symmetric]
        by (simp add: algebra_simps)
    qed
  qed
  show ?thesis
  proof (cases "0 < x")
    case True
    then show ?thesis by (rule pos)
  next
    case False
    then have "0 < - x" using assms by simp
    from pos [OF this, of "- n"] show ?thesis by simp
  qed
qed

text \<open>
  \<^verbatim>\<open>def newton(n): x = 2**((n.bit_length() + 1)// 2); while True: y = (x + n//x) // 2; ...\<close>
  The loop body divides by \<open>x\<close>; Python raises \<open>ZeroDivisionError\<close> there when
  \<open>x = 0\<close>.
\<close>

function newton_loop :: "int \<Rightarrow> int \<Rightarrow> error + int" where
  "newton_loop n x =
     (if x = 0 then Inl ZeroDivisionError
      else (let y = (x + n div x) div 2
            in if y < x then newton_loop n y else Inr x))"
  by pat_completeness auto
termination
proof (relation "measure (\<lambda>(n, x). nat (x + \<bar>n\<bar>))")
  show "wf (measure (\<lambda>(n, x). nat (x + \<bar>n\<bar>)))" by simp
next
  fix n x y :: int
  assume x0: "x \<noteq> 0" and y: "y = (x + n div x) div 2" and lt: "y < x"
  have b: "\<bar>n div x\<bar> \<le> \<bar>n\<bar>"
    using x0 by (rule abs_div_le_abs)
  have "- \<bar>n\<bar> \<le> y"
  proof (cases "- \<bar>n\<bar> \<le> x")
    case True
    then show ?thesis using b y by linarith
  next
    case False
    then have "\<bar>n\<bar> < \<bar>x\<bar>" and "x < 0" by linarith+
    have "- 1 \<le> n div x"
    proof (cases "0 < n")
      case True
      with \<open>\<bar>n\<bar> < \<bar>x\<bar>\<close> \<open>x < 0\<close> have "n div x = - 1"
        by (intro div_pos_neg_trivial) auto
      then show ?thesis by simp
    next
      case False
      with \<open>x < 0\<close> show ?thesis
        using neg_imp_zdiv_neg_iff [of x n] by simp
    qed
    then show ?thesis using y lt \<open>x < 0\<close> by linarith
  qed
  then show "((n, y), (n, x)) \<in> measure (\<lambda>(n, x). nat (x + \<bar>n\<bar>))"
    using lt by simp
qed

definition newton :: "int \<Rightarrow> error + int" where
  "newton n = newton_loop n (2 ^ nat ((bit_length n + 1) div 2))"

text \<open>
  \<^verbatim>\<open>def binary(n): hi = 2**((n.bit_length() + 1)//2); lo = n // hi; while lo < hi: hi = (hi + lo)//2; lo = n//hi\<close>
\<close>

function binary_loop :: "int \<Rightarrow> int \<Rightarrow> int \<Rightarrow> error + int" where
  "binary_loop n hi lo =
     (if lo < hi
      then (let hi' = (hi + lo) div 2
            in if hi' = 0 then Inl ZeroDivisionError
               else binary_loop n hi' (n div hi'))
      else Inr hi)"
  by pat_completeness auto
termination
proof (relation "measure (\<lambda>(n, hi, lo). nat (hi - min lo (- \<bar>n\<bar>)))")
  show "wf (measure (\<lambda>(n, hi, lo). nat (hi - min lo (- \<bar>n\<bar>))))" by simp
next
  fix n hi lo hi' :: int
  assume lt: "lo < hi" and h: "hi' = (hi + lo) div 2" and nz: "hi' \<noteq> 0"
  have b: "\<bar>n div hi'\<bar> \<le> \<bar>n\<bar>"
    using nz by (rule abs_div_le_abs)
  have "hi' < hi" using lt h by linarith
  then show "((n, hi', n div hi'), (n, hi, lo)) \<in> measure (\<lambda>(n, hi, lo). nat (hi - min lo (- \<bar>n\<bar>)))"
    using b lt by (simp add: min_def) linarith
qed

definition binary :: "int \<Rightarrow> error + int" where
  "binary n =
     (let hi = 2 ^ nat ((bit_length n + 1) div 2)
      in if hi = 0 then Inl ZeroDivisionError else binary_loop n hi (n div hi))"

text \<open>
  \<open>integer_sqrt\<close> is \<open>binary\<close> behind two guards: a negative argument raises
  \<open>ValueError\<close>, and \<open>0\<close> and \<open>1\<close> are returned at once. The other notebooks import
  \<open>integer_sqrt\<close> from the package \<open>core\<close>; this is the definition the repository gives
  for that name.
\<close>

definition integer_sqrt :: "int \<Rightarrow> error + int" where
  "integer_sqrt n =
     (if n < 0 then Inl ValueError
      else if n \<le> 1 then Inr n
      else (let hi = 2 ^ nat ((bit_length n + 1) div 2)
            in if hi = 0 then Inl ZeroDivisionError else binary_loop n hi (n div hi)))"

text \<open>
  \<open>integer_kth_root\<close>: after the guards \<open>n \<ge> 2\<close> and \<open>k \<ge> 1\<close>, the start value is a
  positive power of two and every later iterate is a quotient of non-negative integers,
  so the loop is modelled on \<open>nat\<close>. One step is
  \<^verbatim>\<open>y = ((k - 1)*x + n//x**(k - 1))//k\<close>; both divisions raise on a zero divisor.
\<close>

definition kth_root_step :: "nat \<Rightarrow> nat \<Rightarrow> nat \<Rightarrow> nat" where
  "kth_root_step n k x = ((k - 1) * x + n div x ^ (k - 1)) div k"

function kth_root_loop :: "nat \<Rightarrow> nat \<Rightarrow> nat \<Rightarrow> error + nat" where
  "kth_root_loop n k x =
     (if x ^ (k - 1) = 0 \<or> k = 0 then Inl ZeroDivisionError
      else (let y = kth_root_step n k x
            in if y < x then kth_root_loop n k y else Inr x))"
  by pat_completeness auto
termination
  by (relation "measure (\<lambda>(n, k, x). x)") auto

definition kth_root_start :: "int \<Rightarrow> int \<Rightarrow> nat" where
  "kth_root_start n k = 2 ^ nat (bit_length n div k + 1)"

definition integer_kth_root :: "int \<Rightarrow> int \<Rightarrow> error + int" where
  "integer_kth_root n k =
     (if n < 0 then Inl ValueError
      else if k < 1 then Inl ValueError
      else if n \<le> 1 then Inr n
      else map_sum id int (kth_root_loop (nat n) (nat k) (kth_root_start n k)))"

declare newton_loop.simps [simp del] binary_loop.simps [simp del] kth_root_loop.simps [simp del]

text \<open>The contract of a floor root: \<open>m\<close> is the integer with \<open>m^k \<le> n < (m+1)^k\<close>.\<close>

definition is_floor_root :: "int \<Rightarrow> nat \<Rightarrow> int \<Rightarrow> bool" where
  "is_floor_root n k m \<longleftrightarrow> 0 \<le> m \<and> m ^ k \<le> n \<and> n < (m + 1) ^ k"

text \<open>
  The start value as the specification words it, \<open>2^ceil(bitlen(n)/k)\<close>, to be compared
  with \<open>kth_root_start\<close>, which is the start value of the source.
\<close>

definition kth_root_start_spec :: "int \<Rightarrow> int \<Rightarrow> nat" where
  "kth_root_start_spec n k = 2 ^ nat (- ((- bit_length n) div k))"

subsection \<open>Properties\<close>

lemma bit_length_nat_bound: "n < 2 ^ bit_length_nat n"
proof (induction n rule: bit_length_nat.induct)
  case (1 n)
  show ?case
  proof (cases "n = 0")
    case True
    then show ?thesis by (simp add: bit_length_nat.simps)
  next
    case False
    with 1 have "n div 2 < 2 ^ bit_length_nat (n div 2)" by simp
    then have "n < 2 * 2 ^ bit_length_nat (n div 2)" by linarith
    with False show ?thesis by (subst bit_length_nat.simps) simp
  qed
qed

lemma bit_length_bound:
  assumes "0 \<le> n"
  shows "n < 2 ^ nat (bit_length n)"
proof -
  have "nat n < 2 ^ bit_length_nat (nat n)" by (rule bit_length_nat_bound)
  then have "int (nat n) < int (2 ^ bit_length_nat (nat n))" by (simp only: of_nat_less_iff)
  then show ?thesis using assms by (simp add: bit_length_def)
qed

lemma bit_length_nonneg: "0 \<le> bit_length n"
  by (simp add: bit_length_def)

lemma int_div_less:
  fixes m d c :: int
  assumes d: "0 < d" and m: "m < d * c"
  shows "m div d < c"
proof (rule ccontr)
  assume "\<not> m div d < c"
  then have "d * c \<le> d * (m div d)" using d by (intro mult_left_mono) auto
  moreover have "m = d * (m div d) + m mod d" by simp
  moreover have "0 \<le> m mod d" using d by simp
  ultimately show False using m by linarith
qed

text \<open>One Newton step for the square root, on the integers.\<close>

lemma newton_step_upper:
  fixes n x :: int
  assumes x: "0 < x" and n: "0 \<le> n"
  defines "y \<equiv> (x + n div x) div 2"
  shows "n < (y + 1)\<^sup>2"
proof -
  define q where "q = n div x"
  have "n = x * q + n mod x" unfolding q_def by simp
  moreover have "n mod x < x" using x by simp
  ultimately have nlt: "n < x * (q + 1)" by (simp add: algebra_simps)
  have "x + q \<le> 2 * y + 1" unfolding y_def q_def by linarith
  then have le: "x + (q + 1) \<le> 2 * (y + 1)" by simp
  have q0: "0 \<le> q" unfolding q_def using x n by (simp add: pos_imp_zdiv_nonneg_iff)
  have "0 \<le> (x - (q + 1))\<^sup>2" by simp
  then have "4 * (x * (q + 1)) \<le> (x + (q + 1))\<^sup>2"
    by (simp add: power2_eq_square algebra_simps)
  also have "\<dots> \<le> (2 * (y + 1))\<^sup>2"
    using le x q0 by (intro power_mono) auto
  also have "\<dots> = 4 * (y + 1)\<^sup>2" by (simp add: power2_eq_square algebra_simps)
  finally show ?thesis using nlt by linarith
qed

lemma newton_step_less:
  fixes n x :: int
  assumes x: "0 < x" and n: "n < x\<^sup>2"
  shows "(x + n div x) div 2 < x"
proof -
  have "n div x < x"
    using x n by (intro int_div_less) (simp_all add: power2_eq_square)
  then show ?thesis by linarith
qed

lemma newton_step_stop:
  fixes n x :: int
  assumes x: "0 < x" and stop: "\<not> (x + n div x) div 2 < x"
  shows "x\<^sup>2 \<le> n"
  using newton_step_less [OF x, of n] stop by linarith

lemma newton_loop_correct:
  assumes "1 \<le> n" "0 < x" "n < (x + 1)\<^sup>2"
  shows "\<exists>m. newton_loop n x = Inr m \<and> is_floor_root n 2 m"
  using assms
proof (induction n x rule: newton_loop.induct)
  case (1 n x)
  define y where "y = (x + n div x) div 2"
  show ?case
  proof (cases "y < x")
    case True
    have up: "n < (y + 1)\<^sup>2"
      unfolding y_def using "1.prems" by (intro newton_step_upper) auto
    have "0 \<le> n div x" using "1.prems" by (simp add: pos_imp_zdiv_nonneg_iff)
    then have "0 \<le> y" unfolding y_def using "1.prems" by linarith
    have "y \<noteq> 0" using up "1.prems" by auto
    with \<open>0 \<le> y\<close> have "0 < y" by simp
    have "\<exists>m. newton_loop n y = Inr m \<and> is_floor_root n 2 m"
      using "1.IH" [of y] "1.prems" True \<open>0 < y\<close> up unfolding y_def by simp
    moreover have "newton_loop n x = newton_loop n y"
      using True "1.prems" unfolding y_def by (subst newton_loop.simps) (simp add: Let_def)
    ultimately show ?thesis by simp
  next
    case False
    then have "x\<^sup>2 \<le> n"
      unfolding y_def using "1.prems" by (intro newton_step_stop) auto
    moreover have "newton_loop n x = Inr x"
      using False "1.prems" unfolding y_def by (subst newton_loop.simps) (simp add: Let_def)
    ultimately show ?thesis using "1.prems" by (simp add: is_floor_root_def)
  qed
qed

lemma binary_loop_newton:
  "hi \<noteq> 0 \<Longrightarrow> binary_loop n hi (n div hi) = newton_loop n hi"
proof (induction n hi rule: newton_loop.induct)
  case (1 n x)
  define y where "y = (x + n div x) div 2"
  have cond: "n div x < x \<longleftrightarrow> y < x" unfolding y_def by linarith
  show ?case
  proof (cases "y < x")
    case True
    show ?thesis
    proof (cases "y = 0")
      case True
      have "newton_loop n 0 = Inl ZeroDivisionError"
        by (simp add: newton_loop.simps)
      moreover have "newton_loop n x = newton_loop n y"
        using \<open>y < x\<close> "1.prems" unfolding y_def
        by (subst newton_loop.simps) (simp add: Let_def)
      moreover have "binary_loop n x (n div x) = Inl ZeroDivisionError"
        using \<open>y < x\<close> cond True unfolding y_def
        by (subst binary_loop.simps) (simp add: Let_def)
      ultimately show ?thesis using True by simp
    next
      case False
      then have "binary_loop n y (n div y) = newton_loop n y"
        using "1.IH" [of y] "1.prems" True unfolding y_def by simp
      then show ?thesis
        using \<open>y < x\<close> cond "1.prems" False unfolding y_def
        by (subst binary_loop.simps, subst newton_loop.simps) (simp add: Let_def)
    qed
  next
    case False
    then show ?thesis
      using cond "1.prems" unfolding y_def
      by (subst binary_loop.simps, subst newton_loop.simps) (simp add: Let_def)
  qed
qed

lemma sqrt_start_pos: "(0::int) < 2 ^ nat ((bit_length n + 1) div 2)"
  by simp

lemma sqrt_start_upper:
  assumes "0 \<le> n"
  shows "n < (2 ^ nat ((bit_length n + 1) div 2) + 1)\<^sup>2"
proof -
  define b where "b = nat (bit_length n)"
  define e where "e = nat ((bit_length n + 1) div 2)"
  have "b \<le> 2 * e" unfolding b_def e_def using bit_length_nonneg [of n] by linarith
  have "n < 2 ^ b" unfolding b_def using assms by (rule bit_length_bound)
  also have "\<dots> \<le> (2::int) ^ (2 * e)" using \<open>b \<le> 2 * e\<close> by (intro power_increasing) auto
  also have "\<dots> = (2 ^ e)\<^sup>2" by (simp add: power_mult [symmetric] mult.commute)
  also have "\<dots> < (2 ^ e + 1)\<^sup>2" by (intro power_strict_mono) auto
  finally show ?thesis unfolding e_def .
qed

lemma binary_eq_newton: "binary n = newton n"
  unfolding binary_def newton_def Let_def
  using binary_loop_newton [of "2 ^ nat ((bit_length n + 1) div 2)" n] by simp

lemma newton_correct:
  assumes "1 \<le> n"
  shows "\<exists>m. newton n = Inr m \<and> is_floor_root n 2 m"
  unfolding newton_def
  using assms sqrt_start_upper [of n] by (intro newton_loop_correct) auto

lemma integer_sqrt_eq_binary:
  assumes "1 \<le> n"
  shows "integer_sqrt n = binary n"
proof (cases "n = 1")
  case True
  have "bit_length 1 = 1" by (simp add: bit_length_def bit_length_nat.simps)
  then have "newton 1 = Inr 1"
    unfolding newton_def by (simp add: newton_loop.simps [of 1 2] newton_loop.simps [of 1 1])
  then show ?thesis using True by (simp add: integer_sqrt_def binary_eq_newton)
next
  case False
  with assms show ?thesis by (simp add: integer_sqrt_def binary_def)
qed

text \<open>
  The general step needs the inequality of the arithmetic and geometric means in the form
  \<open>k r x^(k-1) \<le> (k-1) x^k + r^k\<close>, proved by induction from the rearrangement
  inequality for two numbers.
\<close>

lemma rearrangement_nat:
  fixes x r :: nat
  shows "r * x ^ j + x * r ^ j \<le> x * x ^ j + r * r ^ j"
proof -
  have main: "b * a ^ j + a * b ^ j \<le> a * a ^ j + b * b ^ j" if "b \<le> a" for a b :: nat
  proof -
    define d where "d = a - b"
    have a: "a = b + d" using that by (simp add: d_def)
    have "b ^ j \<le> a ^ j" using that by (rule power_mono) simp
    define e where "e = a ^ j - b ^ j"
    have p: "a ^ j = b ^ j + e" using \<open>b ^ j \<le> a ^ j\<close> by (simp add: e_def)
    have "b * (b ^ j + e) + (b + d) * b ^ j \<le> (b + d) * (b ^ j + e) + b * b ^ j"
      by (simp add: algebra_simps)
    then show ?thesis unfolding p [symmetric] a [symmetric] .
  qed
  show ?thesis
  proof (cases "r \<le> x")
    case True
    then show ?thesis by (rule main)
  next
    case False
    then have "x \<le> r" by simp
    from main [OF this] show ?thesis by (simp add: add.commute)
  qed
qed

lemma am_gm_nat:
  fixes x r :: nat
  shows "Suc j * r * x ^ j \<le> j * x ^ Suc j + r ^ Suc j"
proof (induction j)
  case 0
  show ?case by simp
next
  case (Suc j)
  have "x * (Suc j * r * x ^ j) \<le> x * (j * x ^ Suc j + r ^ Suc j)"
    using Suc.IH by (rule mult_le_mono2)
  then have a: "Suc j * r * x ^ Suc j \<le> j * x ^ Suc (Suc j) + x * r ^ Suc j"
    by (simp add: algebra_simps)
  have b: "r * x ^ Suc j + x * r ^ Suc j \<le> x * x ^ Suc j + r * r ^ Suc j"
    by (rule rearrangement_nat)
  have "Suc (Suc j) * r * x ^ Suc j + x * r ^ Suc j
      = Suc j * r * x ^ Suc j + (r * x ^ Suc j + x * r ^ Suc j)"
    by (simp add: algebra_simps)
  also have "\<dots> \<le> (j * x ^ Suc (Suc j) + x * r ^ Suc j) + (x * x ^ Suc j + r * r ^ Suc j)"
    using a b by (rule add_mono)
  also have "\<dots> = (Suc j * x ^ Suc (Suc j) + r ^ Suc (Suc j)) + x * r ^ Suc j"
    by (simp add: algebra_simps)
  finally show ?case by simp
qed

lemma kth_root_step_lower:
  assumes k: "0 < k" and x: "0 < x" and r: "r ^ k \<le> n"
  shows "r \<le> kth_root_step n k x"
proof (rule ccontr)
  assume neg: "\<not> r \<le> kth_root_step n k x"
  obtain j where kj: "k = Suc j" using k by (cases k) auto
  define q where "q = n div x ^ j"
  have xj: "0 < x ^ j" using x by simp
  have "(j * x + q) div Suc j < r" using neg unfolding kth_root_step_def kj q_def by simp
  then have "j * x + q < r * Suc j" using div_less_iff_less_mult [of "Suc j" "j * x + q" r] by simp
  then have "j * x + q + 1 \<le> Suc j * r" by (simp add: mult.commute)
  then have "x ^ j * (j * x + q + 1) \<le> x ^ j * (Suc j * r)" by (rule mult_le_mono2)
  then have le1: "j * x ^ Suc j + x ^ j * (q + 1) \<le> Suc j * r * x ^ j"
    by (simp add: algebra_simps)
  have "n < x ^ j * (q + 1)"
    unfolding q_def using xj dividend_less_times_div [of "x ^ j" n] by (simp add: algebra_simps)
  with r have "r ^ Suc j < x ^ j * (q + 1)" unfolding kj by simp
  with le1 am_gm_nat [of j r x] show False by linarith
qed

lemma kth_root_step_less:
  assumes k: "0 < k" and x: "0 < x" and n: "n < x ^ k"
  shows "kth_root_step n k x < x"
proof -
  obtain j where kj: "k = Suc j" using k by (cases k) auto
  have "n div x ^ j < x"
    using n x unfolding kj by (simp add: div_less_iff_less_mult mult.commute)
  then have "j * x + n div x ^ j < x * Suc j" by simp
  then show ?thesis
    unfolding kth_root_step_def kj by (simp add: div_less_iff_less_mult)
qed

lemma kth_root_loop_correct:
  assumes "0 < k" "0 < n" "0 < x" "n < (x + 1) ^ k"
  shows "\<exists>m. kth_root_loop n k x = Inr m \<and> m ^ k \<le> n \<and> n < (m + 1) ^ k"
  using assms
proof (induction n k x rule: kth_root_loop.induct)
  case (1 n k x)
  define y where "y = kth_root_step n k x"
  have nz: "\<not> (x ^ (k - 1) = 0 \<or> k = 0)" using "1.prems" by simp
  show ?case
  proof (cases "y < x")
    case True
    have up: "n < (y + 1) ^ k"
    proof (rule ccontr)
      assume "\<not> n < (y + 1) ^ k"
      then have "(y + 1) ^ k \<le> n" by simp
      from kth_root_step_lower [OF \<open>0 < k\<close> \<open>0 < x\<close> this] show False
        unfolding y_def by simp
    qed
    have "0 < y"
    proof (rule ccontr)
      assume "\<not> 0 < y"
      then show False using up \<open>0 < n\<close> by simp
    qed
    have "\<exists>m. kth_root_loop n k y = Inr m \<and> m ^ k \<le> n \<and> n < (m + 1) ^ k"
      using "1.IH" [OF nz y_def [symmetric, THEN sym] True] "1.prems" \<open>0 < y\<close> up
      unfolding y_def by simp
    moreover have "kth_root_loop n k x = kth_root_loop n k y"
      using True nz unfolding y_def by (subst kth_root_loop.simps) (simp add: Let_def)
    ultimately show ?thesis by simp
  next
    case False
    have "x ^ k \<le> n"
    proof (rule ccontr)
      assume "\<not> x ^ k \<le> n"
      then have "n < x ^ k" by simp
      from kth_root_step_less [OF \<open>0 < k\<close> \<open>0 < x\<close> this] False show False
        unfolding y_def by simp
    qed
    moreover have "kth_root_loop n k x = Inr x"
      using False nz unfolding y_def by (subst kth_root_loop.simps) (simp add: Let_def)
    ultimately show ?thesis using "1.prems" by simp
  qed
qed

lemma kth_root_loop_trace:
  assumes "kth_root_loop n k x = Inr m"
  shows "\<exists>i. m = (kth_root_step n k ^^ i) x
           \<and> (\<forall>j<i. (kth_root_step n k ^^ Suc j) x < (kth_root_step n k ^^ j) x)
           \<and> \<not> kth_root_step n k m < m"
  using assms
proof (induction n k x rule: kth_root_loop.induct)
  case (1 n k x)
  define y where "y = kth_root_step n k x"
  have nz: "\<not> (x ^ (k - 1) = 0 \<or> k = 0)"
    using "1.prems" by (subst (asm) kth_root_loop.simps) (auto split: if_splits)
  show ?case
  proof (cases "y < x")
    case True
    have "kth_root_loop n k x = kth_root_loop n k y"
      using True nz unfolding y_def by (subst kth_root_loop.simps) (simp add: Let_def)
    with "1.prems" have "kth_root_loop n k y = Inr m" by simp
    from "1.IH" [OF nz y_def [symmetric, THEN sym] True] this obtain i where
      i: "m = (kth_root_step n k ^^ i) y"
         "\<forall>j<i. (kth_root_step n k ^^ Suc j) y < (kth_root_step n k ^^ j) y"
         "\<not> kth_root_step n k m < m"
      unfolding y_def by blast
    have shift: "(kth_root_step n k ^^ j) y = (kth_root_step n k ^^ Suc j) x" for j
      unfolding y_def by (simp only: funpow_Suc_right o_apply)
    have "\<forall>j<Suc i. (kth_root_step n k ^^ Suc j) x < (kth_root_step n k ^^ j) x"
    proof (intro allI impI)
      fix j assume "j < Suc i"
      show "(kth_root_step n k ^^ Suc j) x < (kth_root_step n k ^^ j) x"
      proof (cases j)
        case 0
        then show ?thesis using True unfolding y_def by simp
      next
        case (Suc j')
        with \<open>j < Suc i\<close> have "j' < i" by simp
        with i(2) have "(kth_root_step n k ^^ Suc j') y < (kth_root_step n k ^^ j') y" by blast
        then show ?thesis unfolding Suc shift .
      qed
    qed
    with i(1,3) shift [of i] show ?thesis by (intro exI [of _ "Suc i"]) simp
  next
    case False
    have "kth_root_loop n k x = Inr x"
      using False nz unfolding y_def by (subst kth_root_loop.simps) (simp add: Let_def)
    with "1.prems" have "m = x" by simp
    with False show ?thesis unfolding y_def by (intro exI [of _ 0]) simp
  qed
qed

lemma kth_root_start_pos: "0 < kth_root_start n k"
  by (simp add: kth_root_start_def)

lemma kth_root_start_upper:
  assumes n: "0 \<le> n" and k: "1 \<le> k"
  shows "nat n < kth_root_start n k ^ nat k"
proof -
  define b where "b = bit_length n"
  have b0: "0 \<le> b" unfolding b_def by (rule bit_length_nonneg)
  have "b mod k < k" using k by simp
  with mult_div_mod_eq [of k b] have "b < k * (b div k) + k" by linarith
  then have lt: "b < (b div k + 1) * k" by (simp add: algebra_simps)
  have d0: "0 \<le> b div k" using b0 k by (simp add: pos_imp_zdiv_nonneg_iff)
  have "nat (b div k + 1) * nat k = nat ((b div k + 1) * k)"
    using d0 by (simp add: nat_mult_distrib)
  with lt have "nat b \<le> nat (b div k + 1) * nat k" by simp
  have "n < 2 ^ nat b" unfolding b_def using n by (rule bit_length_bound)
  then have "nat n < 2 ^ nat b" using n by (simp add: nat_less_iff)
  also have "\<dots> \<le> (2::nat) ^ (nat (b div k + 1) * nat k)"
    using \<open>nat b \<le> _\<close> by (intro power_increasing) auto
  also have "\<dots> = kth_root_start n k ^ nat k"
    unfolding kth_root_start_def b_def by (simp add: power_mult)
  finally show ?thesis .
qed

lemma integer_kth_root_correct:
  assumes n: "0 \<le> n" and k: "1 \<le> k"
  shows "\<exists>m. integer_kth_root n k = Inr m \<and> is_floor_root n (nat k) m"
proof (cases "n \<le> 1")
  case True
  have "n = 0 \<or> n = 1" using True n by linarith
  then have "is_floor_root n (nat k) n"
    using k by (auto simp: is_floor_root_def power_0_left nat_eq_iff one_less_power)
  then show ?thesis using True n k by (simp add: integer_kth_root_def)
next
  case False
  have "nat n < (kth_root_start n k + 1) ^ nat k"
    using kth_root_start_upper [OF n k]
      power_mono [of "kth_root_start n k" "kth_root_start n k + 1" "nat k"] by simp
  then obtain m where m: "kth_root_loop (nat n) (nat k) (kth_root_start n k) = Inr m"
      "m ^ nat k \<le> nat n" "nat n < (m + 1) ^ nat k"
    using kth_root_loop_correct [of "nat k" "nat n" "kth_root_start n k"] False k
      kth_root_start_pos [of n k] by auto
  have "int (m ^ nat k) \<le> int (nat n)" using m(2) by (simp only: of_nat_le_iff)
  then have "int m ^ nat k \<le> n" using n by simp
  moreover have "int (nat n) < int ((m + 1) ^ nat k)" using m(3) by (simp only: of_nat_less_iff)
  then have "n < (int m + 1) ^ nat k" using n by (simp add: add.commute)
  ultimately have "is_floor_root n (nat k) (int m)" by (simp add: is_floor_root_def)
  moreover have "integer_kth_root n k = Inr (int m)"
    using False n k m(1) by (simp add: integer_kth_root_def)
  ultimately show ?thesis by blast
qed

lemma floor_root_unique:
  fixes m m' :: int
  assumes "0 \<le> m" "m ^ k \<le> n" "n < (m + 1) ^ k"
    and "0 \<le> m'" "m' ^ k \<le> n" "n < (m' + 1) ^ k"
  shows "m' = m"
proof (rule ccontr)
  assume "m' \<noteq> m"
  then consider "m' + 1 \<le> m" | "m + 1 \<le> m'" by linarith
  then show False
  proof cases
    case 1
    then have "(m' + 1) ^ k \<le> m ^ k" using assms(4) by (intro power_mono) auto
    with assms show False by linarith
  next
    case 2
    then have "(m + 1) ^ k \<le> m' ^ k" using assms(1) by (intro power_mono) auto
    with assms show False by linarith
  qed
qed

lemma integer_sqrt_correct:
  assumes "0 \<le> n"
  shows "\<exists>m. integer_sqrt n = Inr m \<and> is_floor_root n 2 m"
proof (cases "n = 0")
  case True
  then show ?thesis by (simp add: integer_sqrt_def is_floor_root_def)
next
  case False
  with assms have "1 \<le> n" by simp
  then show ?thesis
    using newton_correct [of n] by (simp add: integer_sqrt_eq_binary binary_eq_newton)
qed

lemma bit_length_numeral [simp]:
  "bit_length 0 = 0"
  "bit_length 1 = 1"
  "bit_length 2 = 2"
  by (simp_all add: bit_length_def bit_length_nat.simps)

lemma kth_root_start_vs_spec:
  assumes "1 \<le> k"
  shows "kth_root_start n k =
    (if k dvd bit_length n then 2 * kth_root_start_spec n k else kth_root_start_spec n k)"
proof -
  define b where "b = bit_length n"
  have b0: "0 \<le> b" unfolding b_def by (rule bit_length_nonneg)
  have k0: "k \<noteq> 0" using assms by simp
  have d0: "0 \<le> b div k" using b0 assms by (simp add: pos_imp_zdiv_nonneg_iff)
  show ?thesis
  proof (cases "k dvd b")
    case True
    then have "(- b) div k = - (b div k)"
      using zdiv_zminus1_eq_if [OF k0, of b] by (simp add: dvd_eq_mod_eq_0)
    then show ?thesis
      using True d0 unfolding kth_root_start_def kth_root_start_spec_def b_def [symmetric]
      by (simp add: nat_add_distrib)
  next
    case False
    then have "(- b) div k = - (b div k) - 1"
      using zdiv_zminus1_eq_if [OF k0, of b] by (simp add: dvd_eq_mod_eq_0)
    then show ?thesis
      using False unfolding kth_root_start_def kth_root_start_spec_def b_def [symmetric]
      by (simp add: algebra_simps)
  qed
qed

lemma integer_sqrt_Inr:
  assumes "integer_sqrt x = Inr r"
  shows "0 \<le> x" "0 \<le> r" "r\<^sup>2 \<le> x" "x < (r + 1)\<^sup>2"
proof -
  show x: "0 \<le> x" using assms by (auto simp: integer_sqrt_def split: if_splits)
  from integer_sqrt_correct [OF x] assms
  show "0 \<le> r" "r\<^sup>2 \<le> x" "x < (r + 1)\<^sup>2"
    by (auto simp: is_floor_root_def)
qed

lemma square_div_less:
  fixes x k r :: int
  assumes "2 \<le> k" "k \<le> r" "r\<^sup>2 \<le> x"
  shows "0 \<le> x div k\<^sup>2" "x div k\<^sup>2 < x" "k\<^sup>2 \<le> x"
proof -
  have "k\<^sup>2 \<le> r\<^sup>2" using assms by (intro power_mono) auto
  then show kx: "k\<^sup>2 \<le> x" using assms by linarith
  have "2 * 2 \<le> k * k" using assms(1) by (intro mult_mono) auto
  then have k2: "1 < k\<^sup>2" by (simp add: power2_eq_square)
  then have x0: "0 < x" using kx by simp
  have "0 < k\<^sup>2" using k2 by linarith
  then show "0 \<le> x div k\<^sup>2" using x0 by (simp only: pos_imp_zdiv_nonneg_iff)
  show "x div k\<^sup>2 < x" using x0 k2 by (rule int_div_less_self)
qed

text \<open>
  The value of \<open>integer_sqrt\<close> as a total function, for stating the recursions below:
  the floor square root of a non-negative integer, and \<open>0\<close> where \<open>integer_sqrt\<close> raises.
\<close>

definition isqrt :: "int \<Rightarrow> int" where
  "isqrt x = (case integer_sqrt x of Inr r \<Rightarrow> r | Inl e \<Rightarrow> 0)"

lemma isqrt_props:
  assumes "0 \<le> x"
  shows "integer_sqrt x = Inr (isqrt x)" "0 \<le> isqrt x" "(isqrt x)\<^sup>2 \<le> x" "x < (isqrt x + 1)\<^sup>2"
proof -
  from integer_sqrt_correct [OF assms] obtain m where m: "integer_sqrt x = Inr m" by blast
  then show "integer_sqrt x = Inr (isqrt x)" by (simp add: isqrt_def)
  from integer_sqrt_Inr [OF this]
  show "0 \<le> isqrt x" "(isqrt x)\<^sup>2 \<le> x" "x < (isqrt x + 1)\<^sup>2" by simp_all
qed

lemma isqrt_neg: "x < 0 \<Longrightarrow> isqrt x = 0"
  by (simp add: isqrt_def integer_sqrt_def)

lemma isqrt_range:
  assumes "k \<in> set [2..isqrt x]"
  shows "2 \<le> k" "k \<le> isqrt x" "(isqrt x)\<^sup>2 \<le> x"
proof -
  show k: "2 \<le> k" "k \<le> isqrt x" using assms by auto
  have "0 \<le> x" using k isqrt_neg [of x] by (cases "x < 0") auto
  then show "(isqrt x)\<^sup>2 \<le> x" by (rule isqrt_props)
qed

lemma isqrt_le_self:
  assumes "0 \<le> n"
  shows "isqrt n \<le> n"
proof -
  have r: "0 \<le> isqrt n" "(isqrt n)\<^sup>2 \<le> n" using isqrt_props [OF assms] by auto
  have "isqrt n * 1 \<le> isqrt n * isqrt n \<or> isqrt n = 0"
    using r(1) by (cases "isqrt n = 0") (auto intro!: mult_left_mono)
  then show ?thesis using r assms by (auto simp: power2_eq_square)
qed

section \<open>NumPy arrays and Python ranges\<close>

text \<open>
  A one-dimensional array is a list. \<open>np.ones(len, dtype=bool)\<close> raises \<open>ValueError\<close> on
  a negative length ("negative dimensions are not allowed") and on a length that is not a
  signed 64-bit index, \<open>len \<ge> 2^63\<close> ("Maximum allowed dimension exceeded"). Below that
  limit the allocation is taken to succeed: the memory of the machine is not part of the
  model. Indexing with an integer accepts \<open>-len \<le> i < len\<close> (a negative index
  counts from the end) and raises \<open>IndexError\<close> otherwise.
\<close>

definition np_ones :: "int \<Rightarrow> error + bool list" where
  "np_ones len =
     (if len < 0 \<or> 2 ^ 63 \<le> len then Inl ValueError else Inr (replicate (nat len) True))"

definition norm_index :: "nat \<Rightarrow> int \<Rightarrow> error + nat" where
  "norm_index len i =
     (if - int len \<le> i \<and> i < int len
      then Inr (nat (if i < 0 then i + int len else i))
      else Inl IndexError)"

definition get_item :: "'a list \<Rightarrow> int \<Rightarrow> error + 'a" where
  "get_item xs i = bind_err (norm_index (length xs) i) (\<lambda>j. Inr (xs ! j))"

definition set_item :: "'a list \<Rightarrow> int \<Rightarrow> 'a \<Rightarrow> error + 'a list" where
  "set_item xs i v = bind_err (norm_index (length xs) i) (\<lambda>j. Inr (xs[j := v]))"

text \<open>
  \<open>block[start::step]\<close> with no stop: \<open>slice_sel len start step j\<close> tells whether index
  \<open>j\<close> of an array of length \<open>len\<close> belongs to the slice. A negative start counts from
  the end and is then clipped; a positive step walks upwards from the start, a negative step
  downwards; a zero step raises \<open>ValueError\<close>. \<open>block[start::step] = v\<close> is
  \<open>slice_assign\<close>, and \<open>block[start::step] *= c\<close> is \<open>slice_update\<close> with the
  multiplication.
\<close>

definition slice_sel :: "nat \<Rightarrow> int \<Rightarrow> int \<Rightarrow> nat \<Rightarrow> bool" where
  "slice_sel len start step j =
     (let s = (if start < 0 then start + int len else start)
      in if 0 < step
         then max 0 s \<le> int j \<and> (int j - max 0 s) mod step = 0
         else int j \<le> min s (int len - 1) \<and> (min s (int len - 1) - int j) mod (- step) = 0)"

definition slice_update :: "('a \<Rightarrow> 'a) \<Rightarrow> 'a list \<Rightarrow> int \<Rightarrow> int \<Rightarrow> error + 'a list" where
  "slice_update f xs start step =
     (if step = 0 then Inl ValueError
      else Inr (map (\<lambda>j. if slice_sel (length xs) start step j then f (xs ! j) else xs ! j)
                  [0..<length xs]))"

definition slice_assign :: "'a list \<Rightarrow> int \<Rightarrow> int \<Rightarrow> 'a \<Rightarrow> error + 'a list" where
  "slice_assign xs start step v = slice_update (\<lambda>_. v) xs start step"

text \<open>
  \<open>np.flatnonzero(block).tolist()\<close> (and \<open>np.where(block)[0].tolist()\<close>): the indices
  of the true entries, ascending.
\<close>

definition flatnonzero :: "bool list \<Rightarrow> int list" where
  "flatnonzero block = map int (filter (\<lambda>j. block ! j) [0..<length block])"

text \<open>\<open>range(a, b, s)\<close> for a positive step \<open>s\<close>; \<open>range(a, b)\<close> is \<open>[a..b - 1]\<close>.\<close>

definition range_step :: "int \<Rightarrow> int \<Rightarrow> int \<Rightarrow> int list" where
  "range_step a b s = map (\<lambda>i. a + int i * s) [0..<nat ((b - a + s - 1) div s)]"

section \<open>Prime sieves (notebook "Prime Sieves")\<close>

subsection \<open>Definitions\<close>

text \<open>
  \<^verbatim>\<open>def eratosthenes(n): block = np.ones(n + 1, dtype=bool); block[0] = block[1] = False;\<close>
  \<^verbatim>\<open>for k in range(2, integer_sqrt(n) + 1): if block[k]: block[k*k::k] = False\<close>
  The chained assignment stores into \<open>block[0]\<close> first, then into \<open>block[1]\<close>.
\<close>

fun eratosthenes_loop :: "bool list \<Rightarrow> int list \<Rightarrow> error + bool list" where
  "eratosthenes_loop block [] = Inr block"
| "eratosthenes_loop block (k # ks) =
     bind_err (get_item block k) (\<lambda>flag.
       if flag
       then bind_err (slice_assign block (k * k) k False) (\<lambda>block. eratosthenes_loop block ks)
       else eratosthenes_loop block ks)"

definition eratosthenes :: "int \<Rightarrow> error + int list" where
  "eratosthenes n =
     bind_err (np_ones (n + 1)) (\<lambda>block.
     bind_err (set_item block 0 False) (\<lambda>block.
     bind_err (set_item block 1 False) (\<lambda>block.
     bind_err (integer_sqrt n) (\<lambda>r.
     bind_err (eratosthenes_loop block [2..r]) (\<lambda>block.
     Inr (flatnonzero block))))))"

text \<open>
  The odd-only variant: index \<open>l\<close> stands for the odd number \<open>2 l + 1\<close>, and \<open>2\<close> is
  put in front of the result unconditionally (\<open>np.r_[2, 2*nonzero + 1]\<close>).
\<close>

fun eratosthenes2_loop :: "bool list \<Rightarrow> int list \<Rightarrow> error + bool list" where
  "eratosthenes2_loop block [] = Inr block"
| "eratosthenes2_loop block (k # ks) =
     bind_err (get_item block (k div 2)) (\<lambda>flag.
       if flag
       then bind_err (slice_assign block (k * k div 2) k False) (\<lambda>block. eratosthenes2_loop block ks)
       else eratosthenes2_loop block ks)"

definition eratosthenes2 :: "int \<Rightarrow> error + int list" where
  "eratosthenes2 n =
     bind_err (np_ones ((n + 1) div 2)) (\<lambda>block.
     bind_err (set_item block 0 False) (\<lambda>block.
     bind_err (integer_sqrt n) (\<lambda>r.
     bind_err (eratosthenes2_loop block (range_step 3 (r + 1) 2)) (\<lambda>block.
     Inr (2 # map (\<lambda>i. 2 * i + 1) (flatnonzero block))))))"

text \<open>
  \<open>primes\<close> of the notebook "Counting Squarefree Numbers": the same sieve with the loop
  bound \<open>integer_sqrt(n + 1)\<close>.
\<close>

definition primes :: "int \<Rightarrow> error + int list" where
  "primes n =
     bind_err (np_ones (n + 1)) (\<lambda>block.
     bind_err (set_item block 0 False) (\<lambda>block.
     bind_err (set_item block 1 False) (\<lambda>block.
     bind_err (integer_sqrt (n + 1)) (\<lambda>r.
     bind_err (eratosthenes_loop block [2..r]) (\<lambda>block.
     Inr (flatnonzero block))))))"

text \<open>
  The wheel sieve \<open>luo\<close>: the block holds one flag for each number coprime to \<open>6\<close>,
  index \<open>j\<close> standing for \<open>(3 j + 1) | 1\<close>.
  \<^verbatim>\<open>block_size = (n + 1)//3 + (n % 6 == 1); block[0] = False; c, k, t = 0, 1, 2\<close>
  \<^verbatim>\<open>for i in range(1, integer_sqrt(n)//3 + 1): k = 3 - k; c += 4*k*i; t += 4*k\<close>
  \<^verbatim>\<open>    if block[i]: b = c + 2*i*(3 - k) + 1; block[c::t] = False; block[b::t] = False\<close>
  \<^verbatim>\<open>return np.r_[2, 3, (3*nonzero + 1) | 1].tolist()\<close>
\<close>

unbundle bit_operations_syntax

fun luo_loop :: "bool list \<Rightarrow> int \<Rightarrow> int \<Rightarrow> int \<Rightarrow> int list \<Rightarrow> error + bool list" where
  "luo_loop block c k t [] = Inr block"
| "luo_loop block c k t (i # is) =
     (let k = 3 - k; c = c + 4 * k * i; t = t + 4 * k
      in bind_err (get_item block i) (\<lambda>flag.
           if flag
           then (let b = c + 2 * i * (3 - k) + 1
                 in bind_err (slice_assign block c t False) (\<lambda>block.
                    bind_err (slice_assign block b t False) (\<lambda>block.
                    luo_loop block c k t is)))
           else luo_loop block c k t is))"

definition luo :: "int \<Rightarrow> error + int list" where
  "luo n =
     bind_err (np_ones ((n + 1) div 3 + (if n mod 6 = 1 then 1 else 0))) (\<lambda>block.
     bind_err (set_item block 0 False) (\<lambda>block.
     bind_err (integer_sqrt n) (\<lambda>r.
     bind_err (luo_loop block 0 1 2 [1..r div 3]) (\<lambda>block.
     Inr (2 # 3 # map (\<lambda>j. (3 * j + 1) OR 1) (flatnonzero block))))))"

text \<open>
  The segmented sieve \<open>sieve_interval(a, b)\<close>, a generator, as the list of the values it
  yields: first the small primes \<open>p\<close> with \<open>a \<le> p < b\<close>, then block after block of
  \<open>10^6\<close> numbers starting at \<open>max(sqrt + 1, a)\<close>.
  \<^verbatim>\<open>for p in small_primes: multiple = ((start // p) + (start % p > 0))*p;\<close>
  \<^verbatim>\<open>    block[multiple - start::p] = False\<close>
  The division by \<open>p = 0\<close> raises \<open>ZeroDivisionError\<close>. A run that raises is the
  exception alone, without the values yielded before it.
\<close>

fun sieve_block_loop :: "bool list \<Rightarrow> int \<Rightarrow> int list \<Rightarrow> error + bool list" where
  "sieve_block_loop block start [] = Inr block"
| "sieve_block_loop block start (p # ps) =
     (if p = 0 then Inl ZeroDivisionError
      else (let multiple = (start div p + (if start mod p > 0 then 1 else 0)) * p
            in bind_err (slice_assign block (multiple - start) p False) (\<lambda>block.
               sieve_block_loop block start ps)))"

fun sieve_blocks :: "int \<Rightarrow> int list \<Rightarrow> int \<Rightarrow> int list \<Rightarrow> error + int list" where
  "sieve_blocks b small_primes block_size [] = Inr []"
| "sieve_blocks b small_primes block_size (start # starts) =
     bind_err (np_ones (min block_size (b - start))) (\<lambda>block.
     bind_err (sieve_block_loop block start small_primes) (\<lambda>block.
     bind_err (sieve_blocks b small_primes block_size starts) (\<lambda>rest.
     Inr (map (\<lambda>j. start + j) (flatnonzero block) @ rest))))"

definition sieve_interval :: "int \<Rightarrow> int \<Rightarrow> error + int list" where
  "sieve_interval a b =
     bind_err (integer_sqrt b) (\<lambda>sqrt.
     bind_err (luo sqrt) (\<lambda>small_primes.
     (let block_size = 10 ^ 6
      in bind_err (sieve_blocks b small_primes block_size
                     (range_step (max (sqrt + 1) a) b block_size)) (\<lambda>rest.
         Inr (filter (\<lambda>p. a \<le> p \<and> p < b) small_primes @ rest)))))"

subsection \<open>The sieve of Eratosthenes raises nothing from \<open>n = 1\<close> on\<close>

lemma slice_update_length:
  "slice_update f xs start step = Inr ys \<Longrightarrow> length ys = length xs"
  by (auto simp: slice_update_def split: if_splits)


lemma np_ones_Inr:
  "0 \<le> len \<Longrightarrow> len < 2 ^ 63 \<Longrightarrow> np_ones len = Inr (replicate (nat len) True)"
  by (simp add: np_ones_def)

lemma np_ones_large: "2 ^ 63 \<le> len \<Longrightarrow> np_ones len = Inl ValueError"
  by (simp add: np_ones_def)

lemma get_item_Inr:
  "0 \<le> i \<Longrightarrow> i < int (length xs) \<Longrightarrow> get_item xs i = Inr (xs ! nat i)"
  by (simp add: get_item_def norm_index_def)

lemma set_item_Inr:
  "0 \<le> i \<Longrightarrow> i < int (length xs) \<Longrightarrow> set_item xs i v = Inr (xs[nat i := v])"
  by (simp add: set_item_def norm_index_def)






section \<open>Counting squarefree numbers (notebook "Counting Squarefree Numbers")\<close>

subsection \<open>Definitions\<close>

text \<open>A dictionary from integers to integers; a missing key raises \<open>KeyError\<close>.\<close>

type_synonym cache = "int \<rightharpoonup> int"

definition lookup :: "cache \<Rightarrow> int \<Rightarrow> error + int" where
  "lookup cache k = (case cache k of None \<Rightarrow> Inl KeyError | Some v \<Rightarrow> Inr v)"

text \<open>
  \<open>Q_sieve\<close>: strike the multiples of \<open>p^2\<close> for every prime \<open>p \<le> integer_sqrt(n) + 1\<close>
  and count what is left of \<open>1..n\<close>.
\<close>

fun Q_sieve_loop :: "bool list \<Rightarrow> int list \<Rightarrow> error + bool list" where
  "Q_sieve_loop block [] = Inr block"
| "Q_sieve_loop block (p # ps) =
     bind_err (slice_assign block (p * p) (p * p) False) (\<lambda>block. Q_sieve_loop block ps)"

definition count_nonzero :: "bool list \<Rightarrow> int" where
  "count_nonzero block = int (length (filter (\<lambda>b. b) block))"

definition Q_sieve :: "int \<Rightarrow> error + int" where
  "Q_sieve n =
     bind_err (np_ones (n + 1)) (\<lambda>block.
     bind_err (set_item block 0 False) (\<lambda>block.
     bind_err (integer_sqrt n) (\<lambda>r.
     bind_err (primes (r + 1)) (\<lambda>ps.
     bind_err (Q_sieve_loop block ps) (\<lambda>block.
     Inr (count_nonzero block))))))"

text \<open>
  \<open>Q_moebius\<close>: entry \<open>d - 1\<close> of the block starts as \<open>n div d^2\<close>; for every prime
  \<open>p\<close> the entries at the multiples of \<open>p\<close> change sign and those at the multiples of
  \<open>p^2\<close> become \<open>0\<close>; the result is the sum of the block. The entries are between
  \<open>-n\<close> and \<open>n\<close>, so NumPy's 64-bit integers hold them exactly for every \<open>n < 2^63\<close>;
  the model uses unbounded integers. For \<open>n = 0\<close> the block is empty, NumPy gives it a
  floating-point type and the sum is \<open>0.0\<close>, which Python compares equal to \<open>0\<close>.
\<close>

fun Q_moebius_loop :: "int list \<Rightarrow> int list \<Rightarrow> error + int list" where
  "Q_moebius_loop block [] = Inr block"
| "Q_moebius_loop block (p # ps) =
     bind_err (slice_update (\<lambda>v. v * (- 1)) block (p - 1) p) (\<lambda>block.
     bind_err (slice_assign block (p * p - 1) (p * p) 0) (\<lambda>block.
     Q_moebius_loop block ps))"

definition Q_moebius :: "int \<Rightarrow> error + int" where
  "Q_moebius n =
     bind_err (integer_sqrt n) (\<lambda>r.
     (let bound = r + 1; block = map (\<lambda>d. n div d\<^sup>2) [1..bound - 1]
      in bind_err (primes bound) (\<lambda>ps.
         bind_err (Q_moebius_loop block ps) (\<lambda>block.
         Inr (sum_list block)))))"

text \<open>
  \<open>Q_dp\<close>. The \<open>while\<close> loop collects \<open>x div k^2\<close> for \<open>k = 1, 2, \<dots>\<close> as long as the
  next quotient is smaller; \<open>V[-1]\<close> raises \<open>IndexError\<close> on an empty list; the tail
  \<open>range(V[-1] - 1, -1, -1)\<close> counts down to \<open>0\<close>. The cache is seeded with
  \<open>cache[i] = i\<close>, and the keys are corrected in ascending order:
  \<^verbatim>\<open>for k in sorted(V): for l in range(2, integer_sqrt(k) + 1): cache[k] -= cache[k//l**2]\<close>
\<close>

function Q_dp_values :: "int \<Rightarrow> int \<Rightarrow> int list \<Rightarrow> error + int list" where
  "Q_dp_values x k V =
     (if k\<^sup>2 = 0 \<or> (k + 1)\<^sup>2 = 0 then Inl ZeroDivisionError
      else if x div k\<^sup>2 > x div (k + 1)\<^sup>2 then Q_dp_values x (k + 1) (V @ [x div k\<^sup>2])
      else Inr V)"
  by pat_completeness auto
termination
proof (relation "measures [\<lambda>(x, k, V). nat (- k), \<lambda>(x, k, V). nat (x div k\<^sup>2)]")
  show "wf (measures [\<lambda>(x, k, V). nat (- k), \<lambda>(x, k, V). nat (x div k\<^sup>2)])" by simp
next
  fix x k :: int and V :: "int list"
  assume nz: "\<not> (k\<^sup>2 = 0 \<or> (k + 1)\<^sup>2 = 0)" and gt: "x div (k + 1)\<^sup>2 < x div k\<^sup>2"
  have k: "k \<noteq> 0" "k \<noteq> - 1" using nz by auto
  show "((x, k + 1, V @ [x div k\<^sup>2]), (x, k, V))
          \<in> measures [\<lambda>(x, k, V). nat (- k), \<lambda>(x, k, V). nat (x div k\<^sup>2)]"
  proof (cases "k < 0")
    case True
    then show ?thesis using k by simp
  next
    case False
    with k have k1: "1 \<le> k" by simp
    then have sq: "0 < k\<^sup>2" "k\<^sup>2 \<le> (k + 1)\<^sup>2"
      by (simp_all add: power2_eq_square algebra_simps)
    have "0 < x div k\<^sup>2"
    proof (rule ccontr)
      assume "\<not> 0 < x div k\<^sup>2"
      then have le0: "x div k\<^sup>2 \<le> 0" by simp
      show False
      proof (cases "0 \<le> x")
        case True
        moreover have "0 < (k + 1)\<^sup>2" using sq by linarith
        ultimately have "0 \<le> x div (k + 1)\<^sup>2"
          by (simp only: pos_imp_zdiv_nonneg_iff)
        with gt le0 show False by simp
      next
        case False
        then have "x div k\<^sup>2 \<le> x div (k + 1)\<^sup>2"
          using sq by (intro zdiv_mono2_neg) auto
        with gt show False by simp
      qed
    qed
    with gt k1 show ?thesis by simp
  qed
qed

fun Q_dp_inner :: "cache \<Rightarrow> int \<Rightarrow> int list \<Rightarrow> error + cache" where
  "Q_dp_inner cache k [] = Inr cache"
| "Q_dp_inner cache k (l # ls) =
     bind_err (lookup cache k) (\<lambda>a.
     bind_err (lookup cache (k div l\<^sup>2)) (\<lambda>b.
     Q_dp_inner (cache(k \<mapsto> a - b)) k ls))"

fun Q_dp_outer :: "cache \<Rightarrow> int list \<Rightarrow> error + cache" where
  "Q_dp_outer cache [] = Inr cache"
| "Q_dp_outer cache (k # ks) =
     bind_err (integer_sqrt k) (\<lambda>r.
     bind_err (Q_dp_inner cache k [2..r]) (\<lambda>cache.
     Q_dp_outer cache ks))"

definition Q_dp_V :: "int \<Rightarrow> error + int list" where
  "Q_dp_V x =
     bind_err (Q_dp_values x 1 []) (\<lambda>V.
       if V = [] then Inl IndexError else Inr (V @ rev [0..last V - 1]))"

definition Q_dp :: "int \<Rightarrow> error + int" where
  "Q_dp x =
     (if x = 0 \<or> x = 1 then Inr x
      else bind_err (Q_dp_V x) (\<lambda>V.
           bind_err (Q_dp_outer (fold (\<lambda>i c. c(i \<mapsto> i)) V Map.empty) (sort V)) (\<lambda>cache.
           lookup cache x)))"

text \<open>
  \<open>Q_memo\<close> keeps its cache in a default argument, one dictionary shared by all calls, so
  the model passes the cache in and returns it: \<open>Q_memo x cache\<close> is the result of the
  call (a value or an exception) and the cache the call leaves behind.
  \<open>sum_calls f ks 0\<close> is \<open>sum(f(k) for k in ks)\<close> for calls that read and write the
  cache; an exception ends the sum and keeps the cache as it is then.
\<close>

fun sum_calls :: "('a \<Rightarrow> 's \<Rightarrow> (error + int) \<times> 's) \<Rightarrow> 'a list \<Rightarrow> int \<Rightarrow> 's \<Rightarrow> (error + int) \<times> 's" where
  "sum_calls f [] acc s = (Inr acc, s)"
| "sum_calls f (k # ks) acc s =
     (case f k s of
        (Inl e, s') \<Rightarrow> (Inl e, s')
      | (Inr v, s') \<Rightarrow> sum_calls f ks (acc + v) s')"

lemma sum_calls_cong [fundef_cong]:
  assumes "ks = ks'" "acc = acc'" "s = s'" "\<And>k t. k \<in> set ks' \<Longrightarrow> f k t = g k t"
  shows "sum_calls f ks acc s = sum_calls g ks' acc' s'"
  using assms(4) unfolding assms(1-3)
  by (induction ks' arbitrary: acc' s') (auto split: prod.splits sum.splits)

function Q_memo :: "int \<Rightarrow> cache \<Rightarrow> (error + int) \<times> cache" where
  "Q_memo x cache =
     (case cache x of
        Some v \<Rightarrow> (Inr v, cache)
      | None \<Rightarrow>
          (case integer_sqrt x of
             Inl e \<Rightarrow> (Inl e, cache)
           | Inr r \<Rightarrow>
               (case sum_calls (\<lambda>k. Q_memo (x div k\<^sup>2)) [2..r] 0 cache of
                  (Inl e, cache') \<Rightarrow> (Inl e, cache')
                | (Inr s, cache') \<Rightarrow> (Inr (x - s), cache'(x \<mapsto> x - s)))))"
  by pat_completeness auto
termination
proof (relation "measure (\<lambda>(x, cache). nat x)")
  show "wf (measure (\<lambda>(x, cache). nat x))" by simp
next
  fix x r k :: int and cache t :: cache
  assume "integer_sqrt x = Inr r" and "k \<in> set [2..r]"
  then have "2 \<le> k" "k \<le> r" "r\<^sup>2 \<le> x"
    using integer_sqrt_Inr [of x r] by auto
  from square_div_less [OF this]
  show "((x div k\<^sup>2, t), (x, cache)) \<in> measure (\<lambda>(x, cache). nat x)" by simp
qed

text \<open>The cache as the \<open>def\<close> statement creates it: \<open>{1: 1}\<close>.\<close>

definition Q_memo_cache0 :: cache where
  "Q_memo_cache0 = [1 \<mapsto> 1]"

text \<open>
  The recursion \<open>Q(x) = x - \<Sum>k=2..floor(sqrt x). Q(x div k^2)\<close> as a function of \<open>x\<close>
  alone, the value that the memoized and the bottom-up form both compute.
\<close>

function Qrec :: "int \<Rightarrow> int" where
  "Qrec x = x - sum_list (map (\<lambda>k. Qrec (x div k\<^sup>2)) [2..isqrt x])"
  by pat_completeness auto
termination
proof (relation "measure nat")
  show "wf (measure nat)" by simp
next
  fix x k :: int
  assume "k \<in> set [2..isqrt x]"
  from square_div_less [OF isqrt_range [OF this]]
  show "(x div k\<^sup>2, x) \<in> measure nat" by simp
qed

declare Qrec.simps [simp del]

text \<open>
  The invariant of the shared cache: every key is non-negative and holds the value of the
  recursion at that key.
\<close>

definition cache_ok :: "cache \<Rightarrow> bool" where
  "cache_ok c \<longleftrightarrow> (\<forall>k v. c k = Some v \<longrightarrow> 0 \<le> k \<and> v = Qrec k)"

text \<open>
  A sequence of top-level calls \<open>Q_memo(x1), Q_memo(x2), \<dots>\<close>: each runs on the cache the
  one before left behind. \<open>Q_memo_calls xs cache\<close> is the cache after all of them.
\<close>

definition Q_memo_calls :: "int list \<Rightarrow> cache \<Rightarrow> cache" where
  "Q_memo_calls xs cache = fold (\<lambda>x c. snd (Q_memo x c)) xs cache"

subsection \<open>The memoized and the bottom-up form compute the recursion\<close>

lemma sum_calls_ok:
  assumes "\<And>k c. k \<in> set ks \<Longrightarrow> cache_ok c \<Longrightarrow> \<exists>c'. f k c = (Inr (g k), c') \<and> cache_ok c'"
    and "cache_ok c"
  shows "\<exists>c'. sum_calls f ks acc c = (Inr (acc + sum_list (map g ks)), c') \<and> cache_ok c'"
  using assms
proof (induction ks arbitrary: acc c)
  case Nil
  then show ?case by simp
next
  case (Cons k ks)
  from Cons.prems(1) [of k c] Cons.prems(2) obtain c1 where
    c1: "f k c = (Inr (g k), c1)" "cache_ok c1" by auto
  have "\<exists>c'. sum_calls f ks (acc + g k) c1 = (Inr (acc + g k + sum_list (map g ks)), c') \<and> cache_ok c'"
    using Cons.prems(1) c1(2) by (intro Cons.IH) auto
  then show ?case using c1(1) by (simp add: add.assoc)
qed

declare Q_memo.simps [simp del]

lemma Q_memo_ok:
  "cache_ok c \<Longrightarrow> 0 \<le> x \<Longrightarrow> \<exists>c'. Q_memo x c = (Inr (Qrec x), c') \<and> cache_ok c'"
proof (induction x c rule: Q_memo.induct)
  case (1 x cache)
  show ?case
  proof (cases "cache x")
    case (Some v)
    then have "v = Qrec x" using "1.prems"(1) by (simp add: cache_ok_def)
    then show ?thesis using Some "1.prems"(1) by (subst Q_memo.simps) simp
  next
    case None
    have sq: "integer_sqrt x = Inr (isqrt x)" using "1.prems"(2) by (rule isqrt_props)
    have step: "\<exists>c'. Q_memo (x div k\<^sup>2) c = (Inr (Qrec (x div k\<^sup>2)), c') \<and> cache_ok c'"
      if "k \<in> set [2..isqrt x]" "cache_ok c" for k c
    proof -
      have "0 \<le> x div k\<^sup>2" using square_div_less [OF isqrt_range [OF that(1)]] by simp
      then show ?thesis using "1.IH" [OF None sq that(1)] that(2) by simp
    qed
    from sum_calls_ok [of "[2..isqrt x]" "\<lambda>k. Q_memo (x div k\<^sup>2)" "\<lambda>k. Qrec (x div k\<^sup>2)", OF step "1.prems"(1), of 0]
    obtain c1 where c1: "sum_calls (\<lambda>k. Q_memo (x div k\<^sup>2)) [2..isqrt x] 0 cache
        = (Inr (sum_list (map (\<lambda>k. Qrec (x div k\<^sup>2)) [2..isqrt x])), c1)" "cache_ok c1"
      by auto
    have val: "x - sum_list (map (\<lambda>k. Qrec (x div k\<^sup>2)) [2..isqrt x]) = Qrec x"
      by (subst (2) Qrec.simps) simp
    have "Q_memo x cache = (Inr (Qrec x), c1(x \<mapsto> Qrec x))"
      using None sq c1(1) val by (subst Q_memo.simps) simp
    moreover have "cache_ok (c1(x \<mapsto> Qrec x))"
      using c1(2) "1.prems"(2) by (auto simp: cache_ok_def)
    ultimately show ?thesis by blast
  qed
qed

lemma Q_memo_neg:
  assumes "cache_ok c" "x < 0"
  shows "Q_memo x c = (Inl ValueError, c)"
proof -
  have "c x = None"
  proof (cases "c x")
    case (Some v)
    then have "0 \<le> x" using assms(1) unfolding cache_ok_def by blast
    with assms(2) show ?thesis by simp
  qed simp
  then show ?thesis using assms(2) by (subst Q_memo.simps) (simp add: integer_sqrt_def)
qed

lemma cache_ok_initial: "cache_ok Q_memo_cache0"
  by (auto simp: cache_ok_def Q_memo_cache0_def Qrec.simps [of 1] isqrt_def integer_sqrt_def split: if_splits)

lemma cache_ok_step: "cache_ok c \<Longrightarrow> cache_ok (snd (Q_memo x c))"
  using Q_memo_ok [of c x] Q_memo_neg [of c x] by (cases "0 \<le> x") auto

lemma cache_ok_calls: "cache_ok c \<Longrightarrow> cache_ok (Q_memo_calls xs c)"
  unfolding Q_memo_calls_def
  by (induction xs arbitrary: c) (simp_all add: cache_ok_step)

lemma Q_memo_value:
  assumes "cache_ok c"
  shows "fst (Q_memo x c) = (if x < 0 then Inl ValueError else Inr (Qrec x))"
  using Q_memo_ok [OF assms, of x] Q_memo_neg [OF assms, of x] by (cases "0 \<le> x") auto

declare Q_dp_values.simps [simp del]

lemma Q_dp_values_spec:
  assumes "1 \<le> k" "0 \<le> x"
  shows "\<exists>K\<ge>k. Q_dp_values x k V = Inr (V @ map (\<lambda>j. x div j\<^sup>2) [k..K - 1])
           \<and> (\<forall>j. k \<le> j \<and> j < K \<longrightarrow> x div (j + 1)\<^sup>2 < x div j\<^sup>2)
           \<and> \<not> x div (K + 1)\<^sup>2 < x div K\<^sup>2"
  using assms
proof (induction x k V rule: Q_dp_values.induct)
  case (1 x k V)
  have nz: "\<not> (k\<^sup>2 = 0 \<or> (k + 1)\<^sup>2 = 0)" using "1.prems" by auto
  show ?case
  proof (cases "x div (k + 1)\<^sup>2 < x div k\<^sup>2")
    case True
    from "1.IH" [OF nz True] "1.prems" obtain K where K: "k + 1 \<le> K"
      "Q_dp_values x (k + 1) (V @ [x div k\<^sup>2]) = Inr ((V @ [x div k\<^sup>2]) @ map (\<lambda>j. x div j\<^sup>2) [k + 1..K - 1])"
      "\<forall>j. k + 1 \<le> j \<and> j < K \<longrightarrow> x div (j + 1)\<^sup>2 < x div j\<^sup>2"
      "\<not> x div (K + 1)\<^sup>2 < x div K\<^sup>2"
      by auto
    have "[k..K - 1] = k # [k + 1..K - 1]" using K(1) by (simp add: upto_rec1)
    then have "Q_dp_values x k V = Inr (V @ map (\<lambda>j. x div j\<^sup>2) [k..K - 1])"
      using True nz K(2) by (subst Q_dp_values.simps) simp
    moreover have "\<forall>j. k \<le> j \<and> j < K \<longrightarrow> x div (j + 1)\<^sup>2 < x div j\<^sup>2"
    proof (intro allI impI)
      fix j assume j: "k \<le> j \<and> j < K"
      show "x div (j + 1)\<^sup>2 < x div j\<^sup>2"
      proof (cases "j = k")
        case True
        with \<open>x div (k + 1)\<^sup>2 < x div k\<^sup>2\<close> show ?thesis by simp
      next
        case False
        with j K(3) show ?thesis by simp
      qed
    qed
    ultimately show ?thesis using K(1,4) by (intro exI [of _ K]) simp
  next
    case False
    then have "Q_dp_values x k V = Inr V"
      using nz by (subst Q_dp_values.simps) simp
    with False show ?thesis by (intro exI [of _ k]) simp
  qed
qed


text \<open>The list \<open>V\<close> of \<open>Q_dp\<close>, for \<open>x \<ge> 1\<close>.\<close>

lemma div_square_antimono:
  fixes x j j' :: int
  assumes "0 \<le> x" "1 \<le> j" "j \<le> j'"
  shows "x div j'\<^sup>2 \<le> x div j\<^sup>2"
proof -
  have "j\<^sup>2 \<le> j'\<^sup>2" using assms by (intro power_mono) auto
  moreover have "0 < j\<^sup>2" using assms by simp
  ultimately show ?thesis using assms(1) by (intro zdiv_mono2) auto
qed

lemma div_square_nonneg:
  fixes x j :: int
  assumes "0 \<le> x"
  shows "0 \<le> x div j\<^sup>2"
  using assms by (simp add: div_int_pos_iff)

lemma div_div_square:
  fixes x j l :: int
  shows "x div j\<^sup>2 div l\<^sup>2 = x div (j * l)\<^sup>2"
  by (simp add: power_mult_distrib zdiv_zmult2_eq)

lemma Q_dp_V_spec:
  assumes "1 \<le> x"
  shows "\<exists>V. Q_dp_V x = Inr V \<and> x \<in> set V \<and> distinct V \<and> (\<forall>v\<in>set V. 0 \<le> v)
           \<and> (\<forall>v\<in>set V. \<forall>l. 2 \<le> l \<longrightarrow> v div l\<^sup>2 \<in> set V)"
proof -
  define f where "f j = x div j\<^sup>2" for j :: int
  from Q_dp_values_spec [of 1 x "[]"] assms obtain K where K: "1 \<le> K"
    "Q_dp_values x 1 [] = Inr (map f [1..K - 1])"
    "\<forall>j. 1 \<le> j \<and> j < K \<longrightarrow> f (j + 1) < f j"
    "\<not> f (K + 1) < f K"
    unfolding f_def by auto
  have "f (1 + 1) < f 1" using assms unfolding f_def by simp
  with K(4) have "K \<noteq> 1" by auto
  with K(1) have K2: "2 \<le> K" by simp
  define V where "V = map f [1..K - 1]"
  define m where "m = f (K - 1)"
  have Vne: "V \<noteq> []" using K2 by (simp add: V_def)
  have "[1..K - 1] = [1..K - 1 - 1] @ [K - 1]" using K2 by (intro upto_rec2) simp
  then have lastV: "last V = m" by (simp add: V_def m_def)
  define V' where "V' = V @ rev [0..m - 1]"
  have res: "Q_dp_V x = Inr V'"
    using K(2) Vne lastV by (simp add: Q_dp_V_def V_def [symmetric] V'_def)
  have f0: "0 \<le> f j" for j unfolding f_def using assms by (intro div_square_nonneg) simp
  have anti: "f j' \<le> f j" if "1 \<le> j" "j \<le> j'" for j j'
    unfolding f_def using assms that by (intro div_square_antimono) auto
  have strict: "f j' < f j" if "1 \<le> j" "j < j'" "j < K" for j j'
  proof -
    have "f j' \<le> f (j + 1)" using that by (intro anti) auto
    also have "f (j + 1) < f j" using K(3) that by simp
    finally show ?thesis .
  qed
  have setV': "set V' = f ` {1..K - 1} \<union> {0..m - 1}" by (auto simp: V'_def V_def)
  have x_in: "x \<in> set V'"
  proof -
    have "f 1 = x" by (simp add: f_def)
    moreover have "(1::int) \<in> {1..K - 1}" using K2 by simp
    ultimately show ?thesis unfolding setV' by blast
  qed
  have inj: "inj_on f {1..K - 1}"
  proof (rule inj_onI)
    fix a b assume ab: "a \<in> {1..K - 1}" "b \<in> {1..K - 1}" "f a = f b"
    show "a = b"
    proof (rule ccontr)
      assume "a \<noteq> b"
      then consider "a < b" | "b < a" by linarith
      then show False
      proof cases
        case 1
        with strict [of a b] ab show False by simp
      next
        case 2
        with strict [of b a] ab show False by simp
      qed
    qed
  qed
  have ge_m: "m \<le> v" if "v \<in> set V" for v
  proof -
    from that obtain j where j: "1 \<le> j" "j \<le> K - 1" "v = f j" by (auto simp: V_def)
    with anti [of j "K - 1"] show ?thesis by (simp add: m_def)
  qed
  have dist: "distinct V'"
  proof -
    have "distinct V" unfolding V_def using inj by (simp add: distinct_map)
    moreover have "set V \<inter> set (rev [0..m - 1]) = {}" using ge_m by fastforce
    ultimately show ?thesis by (simp add: V'_def)
  qed
  have nonneg: "\<forall>v\<in>set V'. 0 \<le> v" unfolding setV' using f0 by auto
  have closed: "\<forall>v\<in>set V'. \<forall>l. 2 \<le> l \<longrightarrow> v div l\<^sup>2 \<in> set V'"
  proof (intro ballI allI impI)
    fix v l :: int assume v: "v \<in> set V'" and l: "2 \<le> l"
    from v consider j where "1 \<le> j" "j \<le> K - 1" "v = f j" | "0 \<le> v" "v \<le> m - 1"
      unfolding setV' by auto
    then show "v div l\<^sup>2 \<in> set V'"
    proof cases
      case 1
      have eq: "v div l\<^sup>2 = f (j * l)" unfolding 1(3) f_def by (rule div_div_square)
      have "1 * 1 \<le> j * l" using 1(1) l by (intro mult_mono) auto
      then have jl: "1 \<le> j * l" by simp
      show ?thesis
      proof (cases "j * l \<le> K - 1")
        case True
        with jl show ?thesis unfolding eq setV' by auto
      next
        case False
        then have "f (j * l) \<le> f K" using K2 by (intro anti) auto
        also have "f K < m" unfolding m_def using strict [of "K - 1" K] K2 by simp
        finally show ?thesis unfolding eq setV' using f0 [of "j * l"] by auto
      qed
    next
      case 2
      have "0 \<le> v div l\<^sup>2" using 2(1) by (intro div_square_nonneg)
      moreover have "v div l\<^sup>2 \<le> v"
      proof (cases "v = 0")
        case True then show ?thesis by simp
      next
        case False
        with 2(1) show ?thesis by (intro int_div_le_self) simp
      qed
      ultimately show ?thesis unfolding setV' using 2 by auto
    qed
  qed
  from res x_in dist nonneg closed show ?thesis by blast
qed

lemma Qrec_small: "isqrt x < 2 \<Longrightarrow> Qrec x = x"
  by (subst Qrec.simps) simp

lemma Qrec_0_1: "Qrec 0 = 0" "Qrec 1 = 1"
  by (simp_all add: Qrec_small isqrt_def integer_sqrt_def)

lemma Q_dp_inner_correct:
  assumes "c k = Some a"
    and "\<forall>l\<in>set ls. k div l\<^sup>2 \<noteq> k \<and> c (k div l\<^sup>2) = Some (g l)"
  shows "Q_dp_inner c k ls = Inr (c(k \<mapsto> a - sum_list (map g ls)))"
  using assms
proof (induction ls arbitrary: c a)
  case Nil
  then show ?case by (simp add: fun_upd_idem)
next
  case (Cons l ls)
  have l: "k div l\<^sup>2 \<noteq> k" "c (k div l\<^sup>2) = Some (g l)" using Cons.prems(2) by auto
  have "Q_dp_inner c k (l # ls) = Q_dp_inner (c(k \<mapsto> a - g l)) k ls"
    using Cons.prems(1) l by (simp add: lookup_def)
  also have "\<dots> = Inr ((c(k \<mapsto> a - g l))(k \<mapsto> a - g l - sum_list (map g ls)))"
    using Cons.prems(2) by (intro Cons.IH) auto
  also have "(c(k \<mapsto> a - g l))(k \<mapsto> a - g l - sum_list (map g ls))
      = c(k \<mapsto> a - sum_list (map g (l # ls)))"
    by (simp add: diff_diff_eq)
  finally show ?case .
qed

lemma Q_dp_outer_correct:
  assumes "sorted ks" "distinct ks"
    and "\<forall>k\<in>set ks. 0 \<le> k \<and> c k = Some k"
    and "\<forall>k\<in>set ks. \<forall>l. 2 \<le> l \<and> l \<le> isqrt k \<longrightarrow>
           k div l\<^sup>2 \<in> set ks \<or> c (k div l\<^sup>2) = Some (Qrec (k div l\<^sup>2))"
  shows "\<exists>c'. Q_dp_outer c ks = Inr c' \<and> (\<forall>k\<in>set ks. c' k = Some (Qrec k))
           \<and> (\<forall>k. k \<notin> set ks \<longrightarrow> c' k = c k)"
  using assms
proof (induction ks arbitrary: c)
  case Nil
  then show ?case by simp
next
  case (Cons k ks)
  have k0: "0 \<le> k" and ck: "c k = Some k" using Cons.prems(3) by auto
  have sq: "integer_sqrt k = Inr (isqrt k)" using k0 by (rule isqrt_props)
  have small: "k div l\<^sup>2 \<noteq> k \<and> c (k div l\<^sup>2) = Some (Qrec (k div l\<^sup>2))"
    if "l \<in> set [2..isqrt k]" for l
  proof -
    have lt: "k div l\<^sup>2 < k" using square_div_less [OF isqrt_range [OF that]] by simp
    have "k div l\<^sup>2 \<notin> set (k # ks)"
      using lt Cons.prems(1) by auto
    moreover have "2 \<le> l \<and> l \<le> isqrt k" using that by simp
    ultimately show ?thesis using Cons.prems(4) lt by auto
  qed
  define c1 where "c1 = c(k \<mapsto> Qrec k)"
  have "Q_dp_inner c k [2..isqrt k]
      = Inr (c(k \<mapsto> k - sum_list (map (\<lambda>l. Qrec (k div l\<^sup>2)) [2..isqrt k])))"
    using ck small by (intro Q_dp_inner_correct) auto
  then have inner: "Q_dp_inner c k [2..isqrt k] = Inr c1"
    unfolding c1_def by (subst (asm) Qrec.simps [symmetric]) simp
  have "\<exists>c'. Q_dp_outer c1 ks = Inr c' \<and> (\<forall>k\<in>set ks. c' k = Some (Qrec k))
           \<and> (\<forall>k. k \<notin> set ks \<longrightarrow> c' k = c1 k)"
  proof (rule Cons.IH)
    show "sorted ks" "distinct ks" using Cons.prems(1,2) by auto
    show "\<forall>k'\<in>set ks. 0 \<le> k' \<and> c1 k' = Some k'"
      using Cons.prems(2,3) by (auto simp: c1_def)
    show "\<forall>k'\<in>set ks. \<forall>l. 2 \<le> l \<and> l \<le> isqrt k' \<longrightarrow>
           k' div l\<^sup>2 \<in> set ks \<or> c1 (k' div l\<^sup>2) = Some (Qrec (k' div l\<^sup>2))"
    proof (intro ballI allI impI)
      fix k' l assume k': "k' \<in> set ks" and l: "2 \<le> l \<and> l \<le> isqrt k'"
      from Cons.prems(4) k' l
      have "k' div l\<^sup>2 \<in> set (k # ks) \<or> c (k' div l\<^sup>2) = Some (Qrec (k' div l\<^sup>2))"
        by auto
      then show "k' div l\<^sup>2 \<in> set ks \<or> c1 (k' div l\<^sup>2) = Some (Qrec (k' div l\<^sup>2))"
        by (auto simp: c1_def)
    qed
  qed
  then obtain c' where c': "Q_dp_outer c1 ks = Inr c'" "\<forall>k\<in>set ks. c' k = Some (Qrec k)"
    "\<forall>k. k \<notin> set ks \<longrightarrow> c' k = c1 k" by blast
  have "Q_dp_outer c (k # ks) = Inr c'" using sq inner c'(1) by simp
  moreover have "\<forall>k'\<in>set (k # ks). c' k' = Some (Qrec k')"
    using c'(2,3) Cons.prems(2) by (auto simp: c1_def)
  moreover have "\<forall>k'. k' \<notin> set (k # ks) \<longrightarrow> c' k' = c k'"
    using c'(3) by (auto simp: c1_def)
  ultimately show ?case by blast
qed

lemma cache_seed:
  "fold (\<lambda>i c. c(i \<mapsto> i)) V c0 k = (if k \<in> set V then Some k else c0 k)"
  by (induction V arbitrary: c0) auto

lemma Q_dp_correct:
  assumes "0 \<le> x"
  shows "Q_dp x = Inr (Qrec x)"
proof (cases "x = 0 \<or> x = 1")
  case True
  with Qrec_0_1 show ?thesis by (auto simp: Q_dp_def)
next
  case False
  with assms have "1 \<le> x" by simp
  from Q_dp_V_spec [OF this] obtain V where V: "Q_dp_V x = Inr V" "x \<in> set V" "distinct V"
    "\<forall>v\<in>set V. 0 \<le> v" "\<forall>v\<in>set V. \<forall>l. 2 \<le> l \<longrightarrow> v div l\<^sup>2 \<in> set V" by blast
  define c where "c = fold (\<lambda>i c. c(i \<mapsto> i)) V Map.empty"
  have "\<exists>c'. Q_dp_outer c (sort V) = Inr c' \<and> (\<forall>k\<in>set (sort V). c' k = Some (Qrec k))
           \<and> (\<forall>k. k \<notin> set (sort V) \<longrightarrow> c' k = c k)"
  proof (rule Q_dp_outer_correct)
    show "sorted (sort V)" "distinct (sort V)" using V(3) by simp_all
    show "\<forall>k\<in>set (sort V). 0 \<le> k \<and> c k = Some k"
      using V(4) by (simp add: c_def cache_seed)
    show "\<forall>k\<in>set (sort V). \<forall>l. 2 \<le> l \<and> l \<le> isqrt k \<longrightarrow>
           k div l\<^sup>2 \<in> set (sort V) \<or> c (k div l\<^sup>2) = Some (Qrec (k div l\<^sup>2))"
      using V(5) by simp
  qed
  then obtain c' where c': "Q_dp_outer c (sort V) = Inr c'" "\<forall>k\<in>set (sort V). c' k = Some (Qrec k)"
    by blast
  have "c' x = Some (Qrec x)" using c'(2) V(2) by simp
  then show ?thesis using False V(1) c'(1) by (simp add: Q_dp_def c_def [symmetric] lookup_def)
qed


section \<open>What the results have to be\<close>

text \<open>
  The mathematical side of the claims, as executable definitions: a squarefree number is
  a positive integer that no square \<open>d^2\<close> with \<open>d \<ge> 2\<close> divides, \<open>Qcount x\<close> counts the
  squarefree numbers in \<open>1..x\<close>, a prime is an integer above \<open>1\<close> with no divisor in
  \<open>2..p-1\<close>, and \<open>primes_upto n\<close> lists the primes in \<open>2..n\<close> in ascending order.
\<close>

definition squarefree :: "nat \<Rightarrow> bool" where
  "squarefree n \<longleftrightarrow> 0 < n \<and> (\<forall>d\<in>set [2..<Suc n]. \<not> d\<^sup>2 dvd n)"

definition Qcount :: "nat \<Rightarrow> nat" where
  "Qcount x = length (filter squarefree [1..<Suc x])"

definition is_prime :: "nat \<Rightarrow> bool" where
  "is_prime p \<longleftrightarrow> 1 < p \<and> (\<forall>d\<in>set [2..<p]. \<not> d dvd p)"

definition primes_upto :: "nat \<Rightarrow> nat list" where
  "primes_upto n = filter is_prime [2..<Suc n]"

subsection \<open>The recursion counts the squarefree numbers\<close>

lemma squarefree_iff: "squarefree n \<longleftrightarrow> 0 < n \<and> (\<forall>d. 1 < d \<longrightarrow> \<not> d\<^sup>2 dvd n)"
proof -
  have "\<And>d. d\<^sup>2 dvd n \<Longrightarrow> 0 < n \<Longrightarrow> d \<le> n"
  proof -
    fix d :: nat assume that: "d\<^sup>2 dvd n" "0 < n"
    have "d\<^sup>2 \<le> n" using that by (intro dvd_imp_le) auto
    moreover have "d \<le> d\<^sup>2" by (simp add: power2_nat_le_imp_le)
    ultimately show "d \<le> n" by simp
  qed
  have le: "d \<le> n" if "d\<^sup>2 dvd n" "0 < n" for d by (rule \<open>\<And>d. d\<^sup>2 dvd n \<Longrightarrow> 0 < n \<Longrightarrow> d \<le> n\<close> [OF that])
  show ?thesis
  proof
    assume sf: "squarefree n"
    then have n: "0 < n" by (simp add: squarefree_def)
    have "\<not> d\<^sup>2 dvd n" if "1 < d" for d
    proof
      assume dv: "d\<^sup>2 dvd n"
      then have "d \<in> set [2..<Suc n]" using le [OF dv n] that by auto
      with sf dv show False unfolding squarefree_def by blast
    qed
    with n show "0 < n \<and> (\<forall>d. 1 < d \<longrightarrow> \<not> d\<^sup>2 dvd n)" by blast
  next
    assume "0 < n \<and> (\<forall>d. 1 < d \<longrightarrow> \<not> d\<^sup>2 dvd n)"
    then show "squarefree n" unfolding squarefree_def by auto
  qed
qed

lemma Qcount_card: "Qcount x = card {m \<in> {1..x}. squarefree m}"
proof -
  have "distinct [1..<Suc x]" by simp
  then have "length (filter squarefree [1..<Suc x]) = card ({m. squarefree m} \<inter> set [1..<Suc x])"
    by (rule distinct_length_filter)
  then have "Qcount x = card ({m. squarefree m} \<inter> set [1..<Suc x])"
    by (simp only: Qcount_def)
  also have "{m. squarefree m} \<inter> set [1..<Suc x] = {m \<in> {1..x}. squarefree m}"
  proof -
    have "set [1..<Suc x] = {1..x}" by (simp only: set_upt atLeastLessThanSuc_atLeastAtMost)
    then show ?thesis by blast
  qed
  finally show ?thesis .
qed

text \<open>Every positive integer is a square times a squarefree number, in exactly one way.\<close>

lemma square_part_exists:
  "0 < m \<Longrightarrow> \<exists>k. 0 < k \<and> k\<^sup>2 dvd m \<and> squarefree (m div k\<^sup>2)"
proof (induction m rule: less_induct)
  case (less m)
  show ?case
  proof (cases "squarefree m")
    case True
    then show ?thesis by (intro exI [of _ 1]) simp
  next
    case False
    with less.prems obtain d where d: "1 < d" "d\<^sup>2 dvd m" unfolding squarefree_iff by blast
    define m' where "m' = m div d\<^sup>2"
    have m: "m = d\<^sup>2 * m'" using d(2) by (simp add: m'_def)
    have "0 < m'" using less.prems m by (cases "m' = 0") auto
    have "1 < d\<^sup>2" using d(1) by (intro one_less_power) auto
    then have "m' < m" using \<open>0 < m'\<close> unfolding m by simp
    from less.IH [OF this \<open>0 < m'\<close>] obtain k where
      k: "0 < k" "k\<^sup>2 dvd m'" "squarefree (m' div k\<^sup>2)" by blast
    have "(d * k)\<^sup>2 dvd m" unfolding m power_mult_distrib using k(2) by (intro mult_dvd_mono) auto
    moreover have "m div (d * k)\<^sup>2 = m' div k\<^sup>2"
      unfolding m power_mult_distrib using d(1) by (simp add: div_mult2_eq)
    ultimately show ?thesis using k d(1) by (intro exI [of _ "d * k"]) simp
  qed
qed

lemma square_part_unique:
  assumes "0 < m" "k\<^sup>2 dvd m" "squarefree (m div k\<^sup>2)" "j\<^sup>2 dvd m" "squarefree (m div j\<^sup>2)"
  shows "k = (j::nat)"
proof -
  have k0: "0 < k" and j0: "0 < j" using assms by (auto intro: Nat.gr0I)
  define a where "a = m div k\<^sup>2"
  define b where "b = m div j\<^sup>2"
  have ma: "m = k\<^sup>2 * a" and mb: "m = j\<^sup>2 * b" using assms by (simp_all add: a_def b_def)
  have "gcd k j \<noteq> 0" using k0 by simp
  from gcd_coprime_exists [OF this] obtain k' j' where
    kj: "k = k' * gcd k j" "j = j' * gcd k j" "coprime k' j'" by blast
  define g where "g = gcd k j"
  have g0: "0 < g" using k0 by (simp add: g_def)
  have "(k' * g)\<^sup>2 * a = (j' * g)\<^sup>2 * b" using ma mb kj unfolding g_def by simp
  then have "g\<^sup>2 * (k'\<^sup>2 * a) = g\<^sup>2 * (j'\<^sup>2 * b)" by (simp add: power_mult_distrib mult_ac)
  then have eq: "k'\<^sup>2 * a = j'\<^sup>2 * b" using g0 by simp
  have cop: "coprime (k'\<^sup>2) (j'\<^sup>2)" using kj(3) by simp
  have "j'\<^sup>2 dvd k'\<^sup>2 * a" unfolding eq by simp
  then have "j'\<^sup>2 dvd a"
    using cop by (simp add: coprime_dvd_mult_right_iff coprime_commute)
  then have "\<not> 1 < j'" using assms(3) unfolding a_def [symmetric] squarefree_iff by blast
  moreover have "0 < j'" using j0 kj(2) by (cases "j' = 0") auto
  ultimately have j1: "j' = 1" by simp
  have "k'\<^sup>2 dvd j'\<^sup>2 * b" unfolding eq [symmetric] by simp
  then have "k'\<^sup>2 dvd b"
    using cop by (simp add: coprime_dvd_mult_right_iff)
  then have "\<not> 1 < k'" using assms(5) unfolding b_def [symmetric] squarefree_iff by blast
  moreover have "0 < k'" using k0 kj(1) by (cases "k' = 0") auto
  ultimately have "k' = 1" by simp
  with j1 kj show ?thesis by simp
qed

definition square_class :: "nat \<Rightarrow> nat \<Rightarrow> nat set" where
  "square_class x k = {m \<in> {1..x}. k\<^sup>2 dvd m \<and> squarefree (m div k\<^sup>2)}"

lemma card_square_class:
  assumes "0 < k"
  shows "card (square_class x k) = Qcount (x div k\<^sup>2)"
proof -
  define S where "S = {m \<in> {1..x div k\<^sup>2}. squarefree m}"
  have k2: "0 < k\<^sup>2" using assms by simp
  have img: "(\<lambda>m. k\<^sup>2 * m) ` S = square_class x k"
  proof (intro set_eqI iffI)
    fix m assume "m \<in> (\<lambda>m. k\<^sup>2 * m) ` S"
    then obtain m' where m': "m = k\<^sup>2 * m'" "1 \<le> m'" "m' \<le> x div k\<^sup>2" "squarefree m'"
      by (auto simp: S_def)
    have "k\<^sup>2 * m' \<le> k\<^sup>2 * (x div k\<^sup>2)" using m'(3) by simp
    also have "\<dots> \<le> x" by simp
    finally have "m \<le> x" unfolding m'(1) .
    moreover have "1 \<le> m" unfolding m'(1) using m'(2) k2 by (simp add: Suc_le_eq)
    moreover have "m div k\<^sup>2 = m'" unfolding m'(1) using k2 by simp
    ultimately show "m \<in> square_class x k" using m'(1,4) by (simp add: square_class_def)
  next
    fix m assume "m \<in> square_class x k"
    then have m: "1 \<le> m" "m \<le> x" "k\<^sup>2 dvd m" "squarefree (m div k\<^sup>2)"
      by (auto simp: square_class_def)
    define m' where "m' = m div k\<^sup>2"
    have eq: "m = k\<^sup>2 * m'" using m(3) by (simp add: m'_def)
    have "1 \<le> m'" using m(1) eq by (cases "m' = 0") auto
    moreover have "m' \<le> x div k\<^sup>2" unfolding m'_def using m(2) by (rule div_le_mono)
    ultimately have "m' \<in> S" using m(4) by (simp add: S_def m'_def)
    then show "m \<in> (\<lambda>m. k\<^sup>2 * m) ` S" using eq by blast
  qed
  have "inj_on (\<lambda>m. k\<^sup>2 * m) S" using k2 by (auto intro!: inj_onI)
  then have "card ((\<lambda>m. k\<^sup>2 * m) ` S) = card S" by (rule card_image)
  then show ?thesis unfolding img by (simp add: Qcount_card S_def)
qed

lemma nat_sqrt_bound:
  fixes k m x :: nat
  assumes "k\<^sup>2 dvd m" "0 < m" "m \<le> x" "x < (Suc r)\<^sup>2"
  shows "k \<le> r"
proof (rule ccontr)
  assume "\<not> k \<le> r"
  then have "Suc r \<le> k" by simp
  then have "(Suc r)\<^sup>2 \<le> k\<^sup>2" by (rule power_mono) simp
  moreover have "k\<^sup>2 \<le> m" using assms(1,2) by (intro dvd_imp_le) auto
  ultimately show False using assms(3,4) by linarith
qed

lemma squarefree_partition:
  assumes "x < (Suc r)\<^sup>2"
  shows "x = (\<Sum>k = 1..r. Qcount (x div k\<^sup>2))"
proof -
  have un: "(\<Union>k\<in>{1..r}. square_class x k) = {1..x}"
  proof (intro set_eqI iffI)
    fix m assume "m \<in> (\<Union>k\<in>{1..r}. square_class x k)"
    then show "m \<in> {1..x}" by (auto simp: square_class_def)
  next
    fix m assume m: "m \<in> {1..x}"
    then have "0 < m" by simp
    from square_part_exists [OF this] obtain k where
      k: "0 < k" "k\<^sup>2 dvd m" "squarefree (m div k\<^sup>2)" by blast
    have "k \<le> r" using k(2) \<open>0 < m\<close> m assms by (intro nat_sqrt_bound [of k m x r]) auto
    with k m show "m \<in> (\<Union>k\<in>{1..r}. square_class x k)"
      by (auto simp: square_class_def Suc_le_eq)
  qed
  have disj: "\<forall>k\<in>{1..r}. \<forall>j\<in>{1..r}. k \<noteq> j \<longrightarrow> square_class x k \<inter> square_class x j = {}"
  proof (intro ballI impI)
    fix k j :: nat assume "k \<noteq> j"
    show "square_class x k \<inter> square_class x j = {}"
    proof (rule ccontr)
      assume "square_class x k \<inter> square_class x j \<noteq> {}"
      then obtain m where "m \<in> square_class x k" "m \<in> square_class x j" by blast
      then have "k = j"
        by (intro square_part_unique [of m k j]) (auto simp: square_class_def)
      with \<open>k \<noteq> j\<close> show False by simp
    qed
  qed
  have "card (\<Union>k\<in>{1..r}. square_class x k) = (\<Sum>k\<in>{1..r}. card (square_class x k))"
    using disj by (intro card_UN_disjoint) (auto simp: square_class_def)
  also have "\<dots> = (\<Sum>k = 1..r. Qcount (x div k\<^sup>2))"
    by (intro sum.cong) (auto simp: card_square_class)
  finally show ?thesis unfolding un by simp
qed

lemma isqrt_nat:
  fixes x :: nat
  defines "r \<equiv> nat (isqrt (int x))"
  shows "isqrt (int x) = int r" "r\<^sup>2 \<le> x" "x < (Suc r)\<^sup>2"
proof -
  have p: "0 \<le> isqrt (int x)" "(isqrt (int x))\<^sup>2 \<le> int x" "int x < (isqrt (int x) + 1)\<^sup>2"
    using isqrt_props [of "int x"] by simp_all
  show e: "isqrt (int x) = int r" using p(1) by (simp add: r_def)
  have "int (r\<^sup>2) \<le> int x" using p(2) unfolding e by simp
  then show "r\<^sup>2 \<le> x" by (simp only: of_nat_le_iff)
  have "int x < int ((Suc r)\<^sup>2)" using p(3) unfolding e by (simp add: add.commute)
  then show "x < (Suc r)\<^sup>2" by (simp only: of_nat_less_iff)
qed

lemma sum_list_upto_nat:
  "sum_list (map f [2..int r]) = (\<Sum>k = 2..r. f (int k))"
proof -
  have "sum_list (map f [2..int r]) = sum f (set [2..int r])"
    by (intro sum_list_distinct_conv_sum_set) simp
  also have "set [2..int r] = int ` {2..r}"
    by (simp add: image_int_atLeastAtMost)
  also have "sum f (int ` {2..r}) = (\<Sum>k = 2..r. f (int k))"
    by (subst sum.reindex) (auto simp: inj_on_def)
  finally show ?thesis .
qed

lemma Qcount_0: "Qcount 0 = 0"
  by (simp add: Qcount_def)

lemma Qrec_eq_Qcount: "Qrec (int x) = int (Qcount x)"
proof (induction x rule: less_induct)
  case (less x)
  define r where "r = nat (isqrt (int x))"
  have r: "isqrt (int x) = int r" "r\<^sup>2 \<le> x" "x < (Suc r)\<^sup>2"
    unfolding r_def by (rule isqrt_nat)+
  have tm: "Qrec (int x div (int k)\<^sup>2) = int (Qcount (x div k\<^sup>2))" if "k \<in> {2..r}" for k
  proof -
    have k: "2 \<le> k" "k \<le> r" using that by auto
    have "k\<^sup>2 \<le> r\<^sup>2" using k(2) by (rule power_mono) simp
    then have kx: "k\<^sup>2 \<le> x" using r(2) by (rule order_trans)
    have "1 < k" using k(1) by simp
    then have k2: "1 < k\<^sup>2" by (intro one_less_power) auto
    have "0 < x" using kx k2 by simp
    then have "x div k\<^sup>2 < x" using k2 by (intro div_less_dividend) auto
    from less.IH [OF this] have "Qrec (int (x div k\<^sup>2)) = int (Qcount (x div k\<^sup>2))" .
    moreover have "int (x div k\<^sup>2) = int x div (int k)\<^sup>2" by (simp add: zdiv_int)
    ultimately show ?thesis by simp
  qed
  have "Qrec (int x) = int x - sum_list (map (\<lambda>k. Qrec (int x div k\<^sup>2)) [2..int r])"
    by (subst Qrec.simps) (simp add: r(1))
  also have "sum_list (map (\<lambda>k. Qrec (int x div k\<^sup>2)) [2..int r])
      = (\<Sum>k = 2..r. Qrec (int x div (int k)\<^sup>2))"
    by (rule sum_list_upto_nat)
  also have "\<dots> = (\<Sum>k = 2..r. int (Qcount (x div k\<^sup>2)))"
    by (intro sum.cong refl tm)
  also have "\<dots> = int (\<Sum>k = 2..r. Qcount (x div k\<^sup>2))" by simp
  finally have q: "Qrec (int x) = int x - int (\<Sum>k = 2..r. Qcount (x div k\<^sup>2))" .
  have part: "x = (\<Sum>k = 1..r. Qcount (x div k\<^sup>2))"
    using r(3) by (rule squarefree_partition)
  show ?case
  proof (cases "r = 0")
    case True
    with r(3) have "x = 0" by simp
    with q True show ?thesis by (simp add: Qcount_0)
  next
    case False
    then have "1 \<le> r" by simp
    then have "(\<Sum>k = 1..r. Qcount (x div k\<^sup>2)) = Qcount (x div 1\<^sup>2) + (\<Sum>k = Suc 1..r. Qcount (x div k\<^sup>2))"
      by (rule sum.atLeast_Suc_atMost)
    with part have "x = Qcount x + (\<Sum>k = 2..r. Qcount (x div k\<^sup>2))"
      by (simp add: numeral_2_eq_2)
    then have "int x = int (Qcount x) + int (\<Sum>k = 2..r. Qcount (x div k\<^sup>2))"
      by (metis of_nat_add)
    with q show ?thesis by simp
  qed
qed

lemma Qrec_nonneg_eq:
  assumes "0 \<le> x"
  shows "Qrec x = int (Qcount (nat x))"
  using Qrec_eq_Qcount [of "nat x"] assms by simp

lemma Qcount_10: "Qcount 10 = 7"
  by code_simp

lemma Qcount_20: "Qcount 20 = 13"
  by code_simp

subsection \<open>The sieve of Eratosthenes and the squarefree sieve\<close>

lemma is_prime_iff: "is_prime p \<longleftrightarrow> 1 < p \<and> (\<forall>d. d dvd p \<longrightarrow> d = 1 \<or> d = p)"
proof
  assume p: "is_prime p"
  then have p1: "1 < p" by (simp add: is_prime_def)
  have "d = 1 \<or> d = p" if "d dvd p" for d
  proof (rule ccontr)
    assume n: "\<not> (d = 1 \<or> d = p)"
    have "d \<le> p" using that p1 by (intro dvd_imp_le) auto
    moreover have "d \<noteq> 0" using that p1 by (intro notI) simp
    ultimately have "d \<in> set [2..<p]" using n by auto
    with p that show False unfolding is_prime_def by blast
  qed
  with p1 show "1 < p \<and> (\<forall>d. d dvd p \<longrightarrow> d = 1 \<or> d = p)" by blast
next
  assume "1 < p \<and> (\<forall>d. d dvd p \<longrightarrow> d = 1 \<or> d = p)"
  then show "is_prime p" unfolding is_prime_def by auto
qed

lemma prime_factor:
  "1 < n \<Longrightarrow> \<exists>p. is_prime p \<and> p dvd n"
proof (induction n rule: less_induct)
  case (less n)
  show ?case
  proof (cases "is_prime n")
    case True
    then show ?thesis by (intro exI [of _ n]) simp
  next
    case False
    with less.prems obtain d where d: "d dvd n" "d \<noteq> 1" "d \<noteq> n"
      unfolding is_prime_iff by blast
    have "d \<le> n" using d(1) less.prems by (intro dvd_imp_le) auto
    moreover have "d \<noteq> 0" using d(1) less.prems by (intro notI) simp
    ultimately have "d < n" "1 < d" using d(2,3) by auto
    from less.IH [OF this] obtain p where "is_prime p" "p dvd d" by blast
    with d(1) show ?thesis by (blast intro: dvd_trans)
  qed
qed

lemma small_prime_factor:
  assumes "1 < n" "\<not> is_prime n"
  shows "\<exists>p. is_prime p \<and> p dvd n \<and> p\<^sup>2 \<le> n"
proof -
  from assms obtain d where d: "d dvd n" "d \<noteq> 1" "d \<noteq> n"
    unfolding is_prime_iff by blast
  define e where "e = n div d"
  have n: "n = d * e" using d(1) by (simp add: e_def)
  have d0: "d \<noteq> 0" using n assms(1) by (intro notI) simp
  have e0: "e \<noteq> 0" using n assms(1) by (intro notI) simp
  have e1: "e \<noteq> 1" using n d(3) by auto
  define a where "a = min d e"
  have a1: "1 < a" using d0 e0 d(2) e1 by (auto simp: a_def min_def)
  have "a * a \<le> d * e" by (intro mult_mono) (auto simp: a_def)
  then have a2: "a\<^sup>2 \<le> n" unfolding n by (simp add: power2_eq_square)
  have adv: "a dvd n" unfolding n a_def by (auto simp: min_def)
  from prime_factor [OF a1] obtain p where p: "is_prime p" "p dvd a" by blast
  have "p \<le> a" using p(2) a1 by (intro dvd_imp_le) auto
  then have "p\<^sup>2 \<le> a\<^sup>2" by (rule power_mono) simp
  then have "p\<^sup>2 \<le> n" using a2 by (rule order_trans)
  moreover have "p dvd n" using p(2) adv by (rule dvd_trans)
  ultimately show ?thesis using p(1) by blast
qed

text \<open>The state of the sieve after the numbers up to \<open>m\<close> have been processed.\<close>

definition sieved :: "nat \<Rightarrow> nat \<Rightarrow> bool" where
  "sieved m j \<longleftrightarrow> 2 \<le> j \<and> \<not> (\<exists>p. is_prime p \<and> p \<le> m \<and> p dvd j \<and> p\<^sup>2 \<le> j)"

lemma sieved_start: "sieved (Suc 0) j \<longleftrightarrow> 2 \<le> j"
  by (auto simp: sieved_def is_prime_def)

lemma sieved_Suc:
  "sieved (Suc m) j \<longleftrightarrow> sieved m j \<and> \<not> (is_prime (Suc m) \<and> Suc m dvd j \<and> (Suc m)\<^sup>2 \<le> j)"
  unfolding sieved_def by (auto simp: le_Suc_eq)

lemma sieved_next:
  "sieved m (Suc m) \<longleftrightarrow> is_prime (Suc m)"
proof
  assume s: "sieved m (Suc m)"
  then have m: "1 < Suc m" by (simp add: sieved_def)
  show "is_prime (Suc m)"
  proof (rule ccontr)
    assume "\<not> is_prime (Suc m)"
    from small_prime_factor [OF m this] obtain p where
      p: "is_prime p" "p dvd Suc m" "p\<^sup>2 \<le> Suc m" by blast
    have "p \<noteq> Suc m" using p(1) \<open>\<not> is_prime (Suc m)\<close> by auto
    moreover have "p \<le> Suc m" using p(2) by (intro dvd_imp_le) auto
    ultimately have "p \<le> m" by simp
    with p s show False unfolding sieved_def by blast
  qed
next
  assume p: "is_prime (Suc m)"
  then have "1 < Suc m" by (simp add: is_prime_def)
  moreover have False if q: "is_prime q" "q \<le> m" "q dvd Suc m" for q
  proof -
    have "q = 1 \<or> q = Suc m" using p q(3) unfolding is_prime_iff by blast
    with q(1,2) show False by (auto simp: is_prime_def)
  qed
  ultimately show "sieved m (Suc m)" unfolding sieved_def by auto
qed

lemma sieved_final:
  assumes "j \<le> n" "n < (Suc r)\<^sup>2"
  shows "sieved r j \<longleftrightarrow> is_prime j"
proof
  assume s: "sieved r j"
  then have j: "1 < j" by (simp add: sieved_def)
  show "is_prime j"
  proof (rule ccontr)
    assume "\<not> is_prime j"
    from small_prime_factor [OF j this] obtain p where
      p: "is_prime p" "p dvd j" "p\<^sup>2 \<le> j" by blast
    have "p \<le> r"
    proof (rule ccontr)
      assume "\<not> p \<le> r"
      then have "Suc r \<le> p" by simp
      then have "(Suc r)\<^sup>2 \<le> p\<^sup>2" by (rule power_mono) simp
      with p(3) assms show False by linarith
    qed
    with p s show False unfolding sieved_def by blast
  qed
next
  assume p: "is_prime j"
  then have j: "1 < j" by (simp add: is_prime_def)
  moreover have False if q: "is_prime q" "q dvd j" "q\<^sup>2 \<le> j" for q
  proof -
    have "q = 1 \<or> q = j" using p q(2) unfolding is_prime_iff by blast
    with q(1) have "q = j" by (auto simp: is_prime_def)
    with q(3) j have "j * j \<le> j * 1" by (simp add: power2_eq_square)
    with j show False by simp
  qed
  ultimately show "sieved r j" unfolding sieved_def by auto
qed

text \<open>Slice assignment with a non-negative start and a positive step.\<close>

lemma slice_sel_pos:
  assumes "0 \<le> start" "0 < step"
  shows "slice_sel len start step j \<longleftrightarrow> start \<le> int j \<and> (int j - start) mod step = 0"
  using assms by (simp add: slice_sel_def Let_def)

lemma slice_update_pos:
  assumes "0 \<le> start" "0 < step"
  shows "\<exists>ys. slice_update f xs start step = Inr ys \<and> length ys = length xs
           \<and> (\<forall>j<length xs. ys ! j =
                 (if start \<le> int j \<and> (int j - start) mod step = 0 then f (xs ! j) else xs ! j))"
  using assms by (simp add: slice_update_def slice_sel_pos)

lemma square_multiple_iff:
  fixes j k :: nat
  assumes "0 < k"
  shows "int k * int k \<le> int j \<and> (int j - int k * int k) mod int k = 0 \<longleftrightarrow> k dvd j \<and> k\<^sup>2 \<le> j"
proof -
  have a: "int k * int k \<le> int j \<longleftrightarrow> k\<^sup>2 \<le> j"
    by (metis of_nat_le_iff of_nat_mult power2_eq_square)
  have b: "(int j - int k * int k) mod int k = 0 \<longleftrightarrow> k dvd j"
  proof -
    have "(int j - int k * int k) mod int k = int j mod int k"
      by (metis mod_diff_right_eq mod_mult_self2_is_0 diff_zero mod_mod_trivial)
    also have "\<dots> = 0 \<longleftrightarrow> int k dvd int j" by (simp add: mod_eq_0_iff_dvd)
    finally show ?thesis by simp
  qed
  show ?thesis unfolding a b by (rule conj_commute)
qed

lemma eratosthenes_loop_sieved:
  assumes "1 \<le> m" "m \<le> r" "r < length block"
    and "\<forall>j<length block. block ! j = sieved m j"
  shows "\<exists>block'. eratosthenes_loop block [int m + 1..int r] = Inr block'
           \<and> length block' = length block \<and> (\<forall>j<length block. block' ! j = sieved r j)"
  using assms
proof (induction "r - m" arbitrary: m block)
  case 0
  then have "m = r" by simp
  with 0 show ?case by simp
next
  case (Suc d)
  then have mr: "m < r" by simp
  define k where "k = Suc m"
  have kl: "k < length block" using mr Suc.prems(3) by (simp add: k_def)
  have ik: "int m + 1 = int k" by (simp add: k_def)
  have list: "[int m + 1..int r] = int k # [int k + 1..int r]"
    unfolding ik using mr by (intro upto_rec1) (simp add: k_def)
  have "get_item block (int k) = Inr (block ! nat (int k))"
    using kl by (intro get_item_Inr) simp_all
  also have "block ! nat (int k) = sieved m k" using kl Suc.prems(4) by (simp only: nat_int)
  also have "\<dots> = is_prime k" unfolding k_def by (rule sieved_next)
  finally have g: "get_item block (int k) = Inr (is_prime k)" .
  have k0: "0 < k" by (simp add: k_def)
  obtain b1 where b1: "length b1 = length block" "\<forall>j<length block. b1 ! j = sieved k j"
    "eratosthenes_loop block [int m + 1..int r] = eratosthenes_loop b1 [int k + 1..int r]"
  proof (cases "is_prime k")
    case True
    from slice_update_pos [of "int k * int k" "int k" "\<lambda>_. False" block] k0
    obtain ys where ys: "slice_assign block (int k * int k) (int k) False = Inr ys"
      "length ys = length block"
      "\<forall>j<length block. ys ! j =
         (if int k * int k \<le> int j \<and> (int j - int k * int k) mod int k = 0 then False else block ! j)"
      unfolding slice_assign_def by auto
    have "\<forall>j<length block. ys ! j = sieved k j"
      using ys(3) Suc.prems(4) True square_multiple_iff [OF k0]
      unfolding k_def sieved_Suc [of m] by auto
    moreover have "eratosthenes_loop block [int m + 1..int r] = eratosthenes_loop ys [int k + 1..int r]"
      unfolding list using g True ys(1) by simp
    ultimately show ?thesis using ys(2) that by blast
  next
    case False
    have "\<forall>j<length block. block ! j = sieved k j"
      using Suc.prems(4) False unfolding k_def sieved_Suc [of m] by auto
    moreover have "eratosthenes_loop block [int m + 1..int r] = eratosthenes_loop block [int k + 1..int r]"
      unfolding list using g False by simp
    ultimately show ?thesis using that by blast
  qed
  have "\<exists>block'. eratosthenes_loop b1 [int k + 1..int r] = Inr block'
           \<and> length block' = length b1 \<and> (\<forall>j<length b1. block' ! j = sieved r j)"
  proof (rule Suc.hyps(1))
    show "d = r - k" using Suc.hyps(2) by (simp add: k_def)
    show "1 \<le> k" "k \<le> r" using mr by (simp_all add: k_def)
    show "r < length b1" using Suc.prems(3) b1(1) by simp
    show "\<forall>j<length b1. b1 ! j = sieved k j" using b1(1,2) by simp
  qed
  then show ?case using b1 by auto
qed

lemma flatnonzero_pred:
  assumes "\<forall>j<length block. block ! j = P j"
  shows "flatnonzero block = map int (filter P [0..<length block])"
proof -
  have "filter (\<lambda>j. block ! j) [0..<length block] = filter P [0..<length block]"
    using assms by (intro filter_cong) auto
  then show ?thesis by (simp add: flatnonzero_def)
qed

lemma count_nonzero_pred:
  assumes "\<forall>j<length block. block ! j = P j"
  shows "count_nonzero block = int (length (filter P [0..<length block]))"
proof -
  have "block = map (\<lambda>j. block ! j) [0..<length block]" by (simp add: map_nth)
  then have "filter (\<lambda>b. b) block = filter (\<lambda>b. b) (map (\<lambda>j. block ! j) [0..<length block])"
    by simp
  also have "\<dots> = map (\<lambda>j. block ! j) (filter (\<lambda>j. block ! j) [0..<length block])"
    by (simp add: filter_map o_def)
  also have "filter (\<lambda>j. block ! j) [0..<length block] = filter P [0..<length block]"
    using assms by (intro filter_cong) auto
  finally show ?thesis by (simp add: count_nonzero_def)
qed

lemma not_prime_0_1: "\<not> is_prime 0" "\<not> is_prime (Suc 0)"
  by (simp_all add: is_prime_def)

lemma filter_prime_upt: "filter is_prime [0..<Suc n] = primes_upto n"
proof (cases n)
  case 0
  then show ?thesis by (simp add: primes_upto_def not_prime_0_1)
next
  case (Suc n')
  have "[0..<Suc n] = 0 # [Suc 0..<Suc n]" by (rule upt_conv_Cons) simp
  also have "[Suc 0..<Suc n] = Suc 0 # [Suc (Suc 0)..<Suc n]"
    unfolding Suc by (rule upt_conv_Cons) simp
  finally show ?thesis by (simp add: primes_upto_def not_prime_0_1 numeral_2_eq_2)
qed

lemma sieve_block_init:
  fixes n :: nat
  defines "b0 \<equiv> (replicate (Suc n) True)[0 := False, 1 := False]"
  shows "length b0 = Suc n" "\<forall>j<Suc n. b0 ! j = (2 \<le> j)"
proof -
  show "length b0 = Suc n" by (simp add: b0_def)
  show "\<forall>j<Suc n. b0 ! j = (2 \<le> j)"
  proof (intro allI impI)
    fix j assume j: "j < Suc n"
    consider "j = 0" | "j = 1" | "2 \<le> j" by linarith
    then show "b0 ! j = (2 \<le> j)"
    proof cases
      case 1
      then show ?thesis unfolding b0_def by (simp del: replicate_Suc)
    next
      case 2
      then show ?thesis unfolding b0_def using j by (simp del: replicate_Suc)
    next
      case 3
      then show ?thesis unfolding b0_def using j by (simp del: replicate_Suc)
    qed
  qed
qed

lemma count_block_init:
  fixes n :: nat
  defines "b0 \<equiv> (replicate (Suc n) True)[0 := False]"
  shows "length b0 = Suc n" "\<forall>j<Suc n. b0 ! j = (0 < j)"
proof -
  show "length b0 = Suc n" by (simp add: b0_def)
  show "\<forall>j<Suc n. b0 ! j = (0 < j)"
  proof (intro allI impI)
    fix j assume j: "j < Suc n"
    show "b0 ! j = (0 < j)"
      unfolding b0_def using j by (cases "j = 0") (simp_all del: replicate_Suc)
  qed
qed

lemma sieve_run:
  assumes "1 \<le> n" "r \<le> n" "n < (Suc r)\<^sup>2"
    and len: "length b0 = Suc n" and b0: "\<forall>j<Suc n. b0 ! j = (2 \<le> j)"
  shows "\<exists>block'. eratosthenes_loop b0 [2..int r] = Inr block'
           \<and> flatnonzero block' = map int (primes_upto n)"
proof -
  have r1: "1 \<le> r"
  proof (rule ccontr)
    assume "\<not> 1 \<le> r"
    then have "r = 0" by simp
    with assms show False by simp
  qed
  have init: "\<forall>j<length b0. b0 ! j = sieved 1 j"
  proof (intro allI impI)
    fix j assume "j < length b0"
    then have "j < Suc n" by (simp add: len)
    then show "b0 ! j = sieved 1 j"
      using b0 sieved_start [of j] by simp
  qed
  have "\<exists>block'. eratosthenes_loop b0 [int 1 + 1..int r] = Inr block'
           \<and> length block' = length b0 \<and> (\<forall>j<length b0. block' ! j = sieved r j)"
    using r1 assms(2) len init by (intro eratosthenes_loop_sieved) auto
  then obtain b1 where b1: "eratosthenes_loop b0 [2..int r] = Inr b1" "length b1 = Suc n"
    "\<forall>j<Suc n. b1 ! j = sieved r j" by (auto simp: len)
  have "\<forall>j<length b1. b1 ! j = is_prime j"
    using b1(2,3) sieved_final [OF _ assms(3)] by auto
  then have "flatnonzero b1 = map int (filter is_prime [0..<length b1])"
    by (rule flatnonzero_pred)
  then have "flatnonzero b1 = map int (primes_upto n)"
    unfolding b1(2) filter_prime_upt .
  with b1(1) show ?thesis by blast
qed

lemma eratosthenes_correct:
  assumes "1 \<le> n" "n < 2 ^ 63 - 1"
  shows "eratosthenes n = Inr (map int (primes_upto (nat n)))"
proof -
  have n0: "0 \<le> n" using assms by simp
  define r where "r = nat (isqrt n)"
  have r: "isqrt n = int r" "r \<le> nat n" "nat n < (Suc r)\<^sup>2"
  proof -
    show e: "isqrt n = int r" using isqrt_props(2) [OF n0] by (simp add: r_def)
    show "r \<le> nat n" using isqrt_le_self [OF n0] by (simp add: r_def)
    have "n < (int r + 1)\<^sup>2" using isqrt_props(4) [OF n0] unfolding e .
    then have "int (nat n) < int ((Suc r)\<^sup>2)" using n0 by (simp add: add.commute)
    then show "nat n < (Suc r)\<^sup>2" by (simp only: of_nat_less_iff)
  qed
  define b0 where "b0 = (replicate (Suc (nat n)) True)[0 := False, 1 := False]"
  have n1: "1 \<le> nat n" using assms(1) by simp
  from sieve_run [OF n1 r(2,3) sieve_block_init [of "nat n"]] obtain b1 where
    b1: "eratosthenes_loop b0 [2..int r] = Inr b1"
        "flatnonzero b1 = map int (primes_upto (nat n))" unfolding b0_def by blast
  have sz: "nat (n + 1) = Suc (nat n)" using n0 by simp
  have "np_ones (n + 1) = Inr (replicate (nat (n + 1)) True)"
    using assms by (intro np_ones_Inr) simp_all
  then have "np_ones (n + 1) = Inr (replicate (Suc (nat n)) True)" by (simp only: sz)
  moreover have "set_item (replicate (Suc (nat n)) True) 0 False = Inr ((replicate (Suc (nat n)) True)[0 := False])"
    by (subst set_item_Inr) simp_all
  moreover have "set_item ((replicate (Suc (nat n)) True)[0 := False]) 1 False = Inr b0"
    unfolding b0_def using assms by (subst set_item_Inr) simp_all
  ultimately show ?thesis
    using isqrt_props(1) [OF n0] b1 unfolding eratosthenes_def by (simp add: r(1))
qed

lemma primes_correct:
  assumes "1 \<le> n" "n < 2 ^ 63 - 1"
  shows "primes n = Inr (map int (primes_upto (nat n)))"
proof -
  have n0: "0 \<le> n" and n1: "0 \<le> n + 1" using assms by simp_all
  define r where "r = nat (isqrt (n + 1))"
  have e: "isqrt (n + 1) = int r" using isqrt_props(2) [OF n1] by (simp add: r_def)
  have "n + 1 < (int r + 1)\<^sup>2" using isqrt_props(4) [OF n1] unfolding e .
  then have "int (nat n) < int ((Suc r)\<^sup>2)" using n0 by (simp add: add.commute)
  then have up: "nat n < (Suc r)\<^sup>2" by (simp only: of_nat_less_iff)
  have "int r \<le> n"
  proof (rule ccontr)
    assume "\<not> int r \<le> n"
    then have "n + 1 \<le> int r" by simp
    then have "(n + 1) * (n + 1) \<le> int r * int r" using n1 by (intro mult_mono) auto
    moreover have "(n + 1) * 2 \<le> (n + 1) * (n + 1)" using assms by (intro mult_left_mono) auto
    moreover have "(int r)\<^sup>2 \<le> n + 1" using isqrt_props(3) [OF n1] unfolding e .
    ultimately show False using assms by (simp add: power2_eq_square)
  qed
  then have le: "r \<le> nat n" by simp
  define b0 where "b0 = (replicate (Suc (nat n)) True)[0 := False, 1 := False]"
  have nn: "1 \<le> nat n" using assms by simp
  from sieve_run [OF nn le up sieve_block_init [of "nat n"]] obtain b1 where
    b1: "eratosthenes_loop b0 [2..int r] = Inr b1"
        "flatnonzero b1 = map int (primes_upto (nat n))" unfolding b0_def by blast
  have sz: "nat (n + 1) = Suc (nat n)" using n0 by simp
  have "np_ones (n + 1) = Inr (replicate (nat (n + 1)) True)"
    using assms by (intro np_ones_Inr) simp_all
  then have "np_ones (n + 1) = Inr (replicate (Suc (nat n)) True)" by (simp only: sz)
  moreover have "set_item (replicate (Suc (nat n)) True) 0 False = Inr ((replicate (Suc (nat n)) True)[0 := False])"
    by (subst set_item_Inr) simp_all
  moreover have "set_item ((replicate (Suc (nat n)) True)[0 := False]) 1 False = Inr b0"
    unfolding b0_def using assms by (subst set_item_Inr) simp_all
  ultimately show ?thesis
    using isqrt_props(1) [OF n1] b1 unfolding primes_def by (simp add: e)
qed

text \<open>The squarefree sieve.\<close>

lemma squarefree_iff_primes:
  "squarefree j \<longleftrightarrow> 0 < j \<and> \<not> (\<exists>p. is_prime p \<and> p\<^sup>2 dvd j)"
proof
  assume "squarefree j"
  then show "0 < j \<and> \<not> (\<exists>p. is_prime p \<and> p\<^sup>2 dvd j)"
    unfolding squarefree_iff by (auto simp: is_prime_def)
next
  assume a: "0 < j \<and> \<not> (\<exists>p. is_prime p \<and> p\<^sup>2 dvd j)"
  have "\<not> d\<^sup>2 dvd j" if "1 < d" for d
  proof
    assume d: "d\<^sup>2 dvd j"
    from prime_factor [OF that] obtain p where p: "is_prime p" "p dvd d" by blast
    have "p\<^sup>2 dvd d\<^sup>2" using p(2) by (simp add: dvd_power_same)
    then have "p\<^sup>2 dvd j" using d by (rule dvd_trans)
    with a p(1) show False by blast
  qed
  with a show "squarefree j" unfolding squarefree_iff by blast
qed

lemma multiple_from_iff:
  fixes j q :: nat
  assumes "0 < q"
  shows "int q \<le> int j \<and> (int j - int q) mod int q = 0 \<longleftrightarrow> q dvd j \<and> q \<le> j"
proof -
  have "(int j - int q) mod int q = int j mod int q"
    by (metis mod_diff_right_eq mod_self diff_zero mod_mod_trivial)
  moreover have "int j mod int q = 0 \<longleftrightarrow> q dvd j"
    by (simp add: mod_eq_0_iff_dvd)
  ultimately show ?thesis by auto
qed

lemma Q_sieve_loop_spec:
  assumes "\<forall>p\<in>set ps. 0 < p"
  shows "\<exists>block'. Q_sieve_loop block (map int ps) = Inr block' \<and> length block' = length block
           \<and> (\<forall>j<length block. block' ! j = (block ! j \<and> \<not> (\<exists>p\<in>set ps. p\<^sup>2 dvd j \<and> p\<^sup>2 \<le> j)))"
  using assms
proof (induction ps arbitrary: block)
  case Nil
  then show ?case by simp
next
  case (Cons p ps)
  have p0: "0 < p\<^sup>2" using Cons.prems by simp
  have pp: "int p * int p = int (p\<^sup>2)" by (simp add: power2_eq_square)
  from slice_update_pos [of "int (p\<^sup>2)" "int (p\<^sup>2)" "\<lambda>_. False" block] p0
  obtain ys where ys: "slice_assign block (int (p\<^sup>2)) (int (p\<^sup>2)) False = Inr ys"
    "length ys = length block"
    "\<forall>j<length block. ys ! j =
       (if int (p\<^sup>2) \<le> int j \<and> (int j - int (p\<^sup>2)) mod int (p\<^sup>2) = 0 then False else block ! j)"
    unfolding slice_assign_def by auto
  have ys': "\<forall>j<length block. ys ! j = (block ! j \<and> \<not> (p\<^sup>2 dvd j \<and> p\<^sup>2 \<le> j))"
    using ys(3) multiple_from_iff [OF p0] by auto
  from Cons.IH [of ys] Cons.prems obtain b' where b': "Q_sieve_loop ys (map int ps) = Inr b'"
    "length b' = length ys"
    "\<forall>j<length ys. b' ! j = (ys ! j \<and> \<not> (\<exists>p\<in>set ps. p\<^sup>2 dvd j \<and> p\<^sup>2 \<le> j))"
    by auto
  have "Q_sieve_loop block (map int (p # ps)) = Inr b'"
    using ys(1) b'(1) by (simp add: pp)
  moreover have "\<forall>j<length block. b' ! j = (block ! j \<and> \<not> (\<exists>q\<in>set (p # ps). q\<^sup>2 dvd j \<and> q\<^sup>2 \<le> j))"
    using b'(3) ys' ys(2) by auto
  ultimately show ?case using b'(2) ys(2) by auto
qed

lemma primes_upto_set: "set (primes_upto n) = {p. is_prime p \<and> p \<le> n}"
  by (auto simp: primes_upto_def is_prime_def)

lemma isqrt_small:
  fixes N r :: nat
  assumes "r\<^sup>2 \<le> N" "int N < 2 ^ 63 - 1"
  shows "int r + 1 < 2 ^ 63 - 1"
proof -
  have "r < 2 ^ 32"
  proof (rule ccontr)
    assume "\<not> r < 2 ^ 32"
    then have "(2 ^ 32)\<^sup>2 \<le> r\<^sup>2" by (intro power_mono) simp_all
    with assms(1) have "(2::nat) ^ 64 \<le> N" by simp
    then have "int ((2::nat) ^ 64) \<le> int N" by (simp only: of_nat_le_iff)
    with assms(2) show False by simp
  qed
  then have "int r < int (2 ^ 32)" by (simp only: of_nat_less_iff)
  then show ?thesis by simp
qed

lemma Q_sieve_correct:
  assumes "0 \<le> n" "n < 2 ^ 63 - 1"
  shows "Q_sieve n = Inr (int (Qcount (nat n)))"
proof -
  define N where "N = nat n"
  define r where "r = nat (isqrt n)"
  have nN: "n = int N" using assms(1) by (simp add: N_def)
  have N63: "int N < 2 ^ 63 - 1" using assms(2) unfolding nN .
  have r: "isqrt (int N) = int r" "r\<^sup>2 \<le> N" "N < (Suc r)\<^sup>2"
    unfolding r_def nN by (rule isqrt_nat)+
  define b0 where "b0 = (replicate (Suc N) True)[0 := False]"
  have len: "length b0 = Suc N" unfolding b0_def by (rule count_block_init)
  have b0: "\<forall>j<length b0. b0 ! j = (0 < j)"
    unfolding len unfolding b0_def by (rule count_block_init)
  have pr: "primes (int r + 1) = Inr (map int (primes_upto (Suc r)))"
    using primes_correct [of "int r + 1"] isqrt_small [OF r(2) N63]
    by (simp add: nat_add_distrib)
  have pos: "\<forall>p\<in>set (primes_upto (Suc r)). 0 < p"
    by (auto simp: primes_upto_set is_prime_def)
  from Q_sieve_loop_spec [OF pos, of b0] obtain b1 where
    b1: "Q_sieve_loop b0 (map int (primes_upto (Suc r))) = Inr b1" "length b1 = length b0"
    "\<forall>j<length b0. b1 ! j = (b0 ! j \<and> \<not> (\<exists>p\<in>set (primes_upto (Suc r)). p\<^sup>2 dvd j \<and> p\<^sup>2 \<le> j))"
    by blast
  have sf: "\<forall>j<length b1. b1 ! j = squarefree j"
  proof (intro allI impI)
    fix j assume "j < length b1"
    then have j: "j < Suc N" using b1(2) len by simp
    have "(\<exists>p\<in>set (primes_upto (Suc r)). p\<^sup>2 dvd j \<and> p\<^sup>2 \<le> j) \<longleftrightarrow> (\<exists>p. is_prime p \<and> p\<^sup>2 dvd j)"
      if "0 < j"
    proof
      assume "\<exists>p\<in>set (primes_upto (Suc r)). p\<^sup>2 dvd j \<and> p\<^sup>2 \<le> j"
      then show "\<exists>p. is_prime p \<and> p\<^sup>2 dvd j" by (auto simp: primes_upto_set)
    next
      assume "\<exists>p. is_prime p \<and> p\<^sup>2 dvd j"
      then obtain p where p: "is_prime p" "p\<^sup>2 dvd j" by blast
      have "p \<le> r" using p(2) that j r(3) by (intro nat_sqrt_bound [of p j N r]) auto
      moreover have "p\<^sup>2 \<le> j" using p(2) that by (intro dvd_imp_le) auto
      ultimately show "\<exists>p\<in>set (primes_upto (Suc r)). p\<^sup>2 dvd j \<and> p\<^sup>2 \<le> j"
        using p by (auto simp: primes_upto_set)
    qed
    then show "b1 ! j = squarefree j"
      using b1(3) b0 j len unfolding squarefree_iff_primes by auto
  qed
  have "count_nonzero b1 = int (length (filter squarefree [0..<length b1]))"
    using sf by (rule count_nonzero_pred)
  also have "[0..<length b1] = 0 # [1..<Suc N]"
    unfolding b1(2) len by (simp add: upt_conv_Cons)
  also have "filter squarefree (0 # [1..<Suc N]) = filter squarefree [1..<Suc N]"
    by (simp add: squarefree_def)
  finally have cnt: "count_nonzero b1 = int (Qcount N)" by (simp only: Qcount_def)
  have sz: "nat (int N + 1) = Suc N" by simp
  have sq: "integer_sqrt (int N) = Inr (int r)"
    using isqrt_props(1) [of "int N"] r(1) by simp
  have "np_ones (int N + 1) = Inr (replicate (nat (int N + 1)) True)"
    using N63 by (intro np_ones_Inr) simp_all
  then have "np_ones (int N + 1) = Inr (replicate (Suc N) True)" by (simp only: sz)
  moreover have "set_item (replicate (Suc N) True) 0 False = Inr b0"
    unfolding b0_def by (subst set_item_Inr) simp_all
  ultimately show ?thesis
    unfolding nN Q_sieve_def using sq pr b1(1) cnt by simp
qed

subsection \<open>The Moebius-weighted sieve\<close>

text \<open>
  The factor that one sieving prime \<open>p\<close> puts on the entry for \<open>d\<close>: \<open>0\<close> when \<open>p^2\<close>
  divides \<open>d\<close>, \<open>-1\<close> when only \<open>p\<close> does, \<open>1\<close> otherwise; \<open>mob ps d\<close> is the product
  over the primes of the list. Summed over the \<open>d\<close> whose square divides \<open>m\<close>, the
  factors of a prime \<open>p\<close> with \<open>p^2\<close> dividing \<open>m\<close> cancel in pairs \<open>d\<close>, \<open>p d\<close>.
\<close>

definition mob_step :: "nat \<Rightarrow> nat \<Rightarrow> int" where
  "mob_step p d = (if p\<^sup>2 dvd d then 0 else if p dvd d then - 1 else 1)"

fun mob :: "nat list \<Rightarrow> nat \<Rightarrow> int" where
  "mob [] d = 1"
| "mob (p # ps) d = mob_step p d * mob ps d"

lemma distinct_primes_coprime:
  assumes "is_prime p" "is_prime q" "p \<noteq> q"
  shows "coprime p q"
proof -
  have "gcd p q dvd p" by simp
  then have "gcd p q = 1 \<or> gcd p q = p" using assms(1) unfolding is_prime_iff by blast
  moreover have "gcd p q \<noteq> p"
  proof
    assume "gcd p q = p"
    then have "p dvd q" by (metis gcd_dvd2)
    then have "p = 1 \<or> p = q" using assms(2) unfolding is_prime_iff by blast
    with assms(1,3) show False by (auto simp: is_prime_def)
  qed
  ultimately show ?thesis by (simp add: coprime_iff_gcd_eq_1)
qed

lemma mob_step_mult:
  assumes "is_prime p" "is_prime q" "p \<noteq> q"
  shows "mob_step q (p * d) = mob_step q d"
proof -
  have c: "coprime q p" using assms by (intro distinct_primes_coprime) auto
  then have c2: "coprime (q\<^sup>2) p" by simp
  have "q dvd p * d \<longleftrightarrow> q dvd d" using c by (rule coprime_dvd_mult_right_iff)
  moreover have "q\<^sup>2 dvd p * d \<longleftrightarrow> q\<^sup>2 dvd d" using c2 by (rule coprime_dvd_mult_right_iff)
  ultimately show ?thesis by (simp add: mob_step_def)
qed

lemma mob_mult:
  assumes "is_prime p" "\<forall>q\<in>set ps. is_prime q \<and> q \<noteq> p"
  shows "mob ps (p * d) = mob ps d"
  using assms(2)
proof (induction ps)
  case Nil
  then show ?case by simp
next
  case (Cons q ps)
  then have "mob_step q (p * d) = mob_step q d"
    using assms(1) by (intro mob_step_mult) auto
  with Cons show ?case by simp
qed

definition sq_divs :: "nat \<Rightarrow> nat set" where
  "sq_divs m = {d. 0 < d \<and> d\<^sup>2 dvd m}"

lemma sq_divs_bound:
  assumes "0 < m" "d \<in> sq_divs m"
  shows "d \<le> m"
proof -
  have "d\<^sup>2 \<le> m" using assms by (intro dvd_imp_le) (auto simp: sq_divs_def)
  moreover have "d \<le> d\<^sup>2" by (simp add: power2_nat_le_imp_le)
  ultimately show ?thesis by simp
qed

lemma finite_sq_divs: "0 < m \<Longrightarrow> finite (sq_divs m)"
proof -
  assume m: "0 < m"
  then have "sq_divs m \<subseteq> {..m}" using sq_divs_bound by auto
  then show ?thesis by (rule finite_subset) simp
qed

lemma mob_sum:
  assumes "0 < m" "distinct ps" "\<forall>p\<in>set ps. is_prime p"
  shows "(\<Sum>d\<in>sq_divs m. mob ps d) =
    (if \<exists>p\<in>set ps. p\<^sup>2 dvd m then 0
     else int (card {d \<in> sq_divs m. \<forall>p\<in>set ps. \<not> p dvd d}))"
  using assms(2,3)
proof (induction ps)
  case Nil
  then show ?case by simp
next
  case (Cons p ps)
  have pp: "is_prime p" and pn: "\<forall>q\<in>set ps. is_prime q \<and> q \<noteq> p"
    using Cons.prems by auto
  have p1: "1 < p" using pp by (simp add: is_prime_def)
  have fin: "finite (sq_divs m)" using assms(1) by (rule finite_sq_divs)
  show ?case
  proof (cases "p\<^sup>2 dvd m")
    case False
    have nd: "\<not> p dvd d" if "d \<in> sq_divs m" for d
    proof
      assume "p dvd d"
      then have "p\<^sup>2 dvd d\<^sup>2" by (simp add: dvd_power_same)
      moreover have "d\<^sup>2 dvd m" using that by (simp add: sq_divs_def)
      ultimately show False using False by (blast intro: dvd_trans)
    qed
    have np2: "\<not> p\<^sup>2 dvd d" if "d \<in> sq_divs m" for d
      using nd [OF that] by (auto simp: power2_eq_square dest: dvd_mult_left)
    have "(\<Sum>d\<in>sq_divs m. mob (p # ps) d) = (\<Sum>d\<in>sq_divs m. mob ps d)"
      by (intro sum.cong refl) (simp add: mob_step_def nd np2)
    also have "\<dots> = (if \<exists>q\<in>set ps. q\<^sup>2 dvd m then 0
        else int (card {d \<in> sq_divs m. \<forall>q\<in>set ps. \<not> q dvd d}))"
      using Cons.prems by (intro Cons.IH) auto
    also have "{d \<in> sq_divs m. \<forall>q\<in>set ps. \<not> q dvd d} = {d \<in> sq_divs m. \<forall>q\<in>set (p # ps). \<not> q dvd d}"
      using nd by auto
    finally show ?thesis using False by simp
  next
    case True
    define A where "A = {d \<in> sq_divs m. \<not> p dvd d}"
    define B where "B = {d \<in> sq_divs m. p dvd d \<and> \<not> p\<^sup>2 dvd d}"
    define C where "C = {d \<in> sq_divs m. p\<^sup>2 dvd d}"
    have split: "sq_divs m = A \<union> B \<union> C" unfolding A_def B_def C_def by auto
    have disj: "A \<inter> B = {}" "(A \<union> B) \<inter> C = {}"
      unfolding A_def B_def C_def by (auto simp: power2_eq_square dest: dvd_mult_left)
    have finA: "finite A" "finite B" "finite C"
      using fin unfolding A_def B_def C_def by auto
    have sA: "(\<Sum>d\<in>A. mob (p # ps) d) = (\<Sum>d\<in>A. mob ps d)"
      by (intro sum.cong refl) (auto simp: A_def mob_step_def power2_eq_square dest: dvd_mult_left)
    have sC: "(\<Sum>d\<in>C. mob (p # ps) d) = 0"
      by (intro sum.neutral) (auto simp: C_def mob_step_def)
    have img: "B = (\<lambda>d. p * d) ` A"
    proof (intro set_eqI iffI)
      fix d assume "d \<in> B"
      then have d: "0 < d" "d\<^sup>2 dvd m" "p dvd d" "\<not> p\<^sup>2 dvd d"
        by (auto simp: B_def sq_divs_def)
      define e where "e = d div p"
      have de: "d = p * e" using d(3) by (simp add: e_def)
      have "0 < e" using d(1) de by (cases "e = 0") auto
      moreover have "e\<^sup>2 dvd m"
      proof -
        have "e\<^sup>2 dvd d\<^sup>2" unfolding de by (simp add: power_mult_distrib)
        then show ?thesis using d(2) by (rule dvd_trans)
      qed
      moreover have "\<not> p dvd e"
      proof
        assume "p dvd e"
        then have "p * p dvd p * e" by (rule mult_dvd_mono [OF dvd_refl])
        with d(4) de show False by (simp add: power2_eq_square)
      qed
      ultimately have "e \<in> A" by (simp add: A_def sq_divs_def)
      with de show "d \<in> (\<lambda>d. p * d) ` A" by blast
    next
      fix d assume "d \<in> (\<lambda>d. p * d) ` A"
      then obtain e where e: "d = p * e" "0 < e" "e\<^sup>2 dvd m" "\<not> p dvd e"
        by (auto simp: A_def sq_divs_def)
      have cop: "coprime p e"
      proof -
        have "gcd p e dvd p" by simp
        then have "gcd p e = 1 \<or> gcd p e = p" using pp unfolding is_prime_iff by blast
        moreover have "gcd p e \<noteq> p" using e(4) by (metis gcd_dvd2)
        ultimately show ?thesis by (simp add: coprime_iff_gcd_eq_1)
      qed
      then have "coprime (p\<^sup>2) (e\<^sup>2)" by simp
      with True e(3) have "p\<^sup>2 * e\<^sup>2 dvd m" by (rule divides_mult)
      then have "d\<^sup>2 dvd m" unfolding e(1) by (simp add: power_mult_distrib)
      moreover have "0 < d" unfolding e(1) using e(2) p1 by simp
      moreover have "p dvd d" unfolding e(1) by simp
      moreover have "\<not> p\<^sup>2 dvd d"
      proof
        assume "p\<^sup>2 dvd d"
        then have "p * p dvd p * e" unfolding e(1) by (simp add: power2_eq_square)
        then have "p dvd e" using p1 by simp
        with e(4) show False by simp
      qed
      ultimately show "d \<in> B" by (simp add: B_def sq_divs_def)
    qed
    have inj: "inj_on (\<lambda>d. p * d) A" using p1 by (auto intro!: inj_onI)
    have "(\<Sum>d\<in>B. mob (p # ps) d) = (\<Sum>d\<in>B. - mob ps d)"
      by (intro sum.cong refl) (auto simp: B_def mob_step_def)
    also have "\<dots> = (\<Sum>e\<in>A. - mob ps (p * e))"
      unfolding img using inj by (simp add: sum.reindex)
    also have "\<dots> = (\<Sum>e\<in>A. - mob ps e)"
      using pp pn by (simp add: mob_mult)
    finally have sB: "(\<Sum>d\<in>B. mob (p # ps) d) = - (\<Sum>e\<in>A. mob ps e)"
      by (simp add: sum_negf)
    have "(\<Sum>d\<in>sq_divs m. mob (p # ps) d)
        = (\<Sum>d\<in>A. mob (p # ps) d) + (\<Sum>d\<in>B. mob (p # ps) d) + (\<Sum>d\<in>C. mob (p # ps) d)"
      unfolding split using finA disj by (simp add: sum.union_disjoint)
    also have "\<dots> = 0" unfolding sA sB sC by simp
    finally show ?thesis using True by simp
  qed
qed

lemma primes_upto_distinct: "distinct (primes_upto n)"
  by (simp add: primes_upto_def)

lemma mob_sum_complete:
  assumes "0 < m" "m \<le> n" "n < (Suc r)\<^sup>2"
  shows "(\<Sum>d\<in>sq_divs m. mob (primes_upto (Suc r)) d) = (if squarefree m then 1 else 0)"
proof -
  define P where "P = primes_upto (Suc r)"
  have P: "set P = {p. is_prime p \<and> p \<le> Suc r}" unfolding P_def by (rule primes_upto_set)
  have le_r: "d \<le> r" if "d \<in> sq_divs m" for d
    using that assms by (intro nat_sqrt_bound [of d m n r]) (auto simp: sq_divs_def)
  have ex: "(\<exists>p\<in>set P. p\<^sup>2 dvd m) \<longleftrightarrow> \<not> squarefree m"
  proof
    assume "\<exists>p\<in>set P. p\<^sup>2 dvd m"
    then show "\<not> squarefree m" unfolding squarefree_iff_primes P by blast
  next
    assume "\<not> squarefree m"
    then obtain p where p: "is_prime p" "p\<^sup>2 dvd m"
      using assms(1) unfolding squarefree_iff_primes by blast
    have "0 < p" using p(1) by (simp add: is_prime_def)
    then have "p \<in> sq_divs m" using p(2) by (simp add: sq_divs_def)
    from le_r [OF this] p show "\<exists>p\<in>set P. p\<^sup>2 dvd m" unfolding P by auto
  qed
  have one: "{d \<in> sq_divs m. \<forall>p\<in>set P. \<not> p dvd d} = {1}"
  proof (intro set_eqI iffI)
    fix d assume d: "d \<in> {d \<in> sq_divs m. \<forall>p\<in>set P. \<not> p dvd d}"
    then have d0: "0 < d" and dm: "d \<in> sq_divs m" by (auto simp: sq_divs_def)
    have "d = 1"
    proof (rule ccontr)
      assume "d \<noteq> 1"
      with d0 have "1 < d" by simp
      from prime_factor [OF this] obtain q where q: "is_prime q" "q dvd d" by blast
      have "q \<le> d" using q(2) d0 by (intro dvd_imp_le) auto
      with le_r [OF dm] have "q \<in> set P" using q(1) unfolding P by simp
      with d q(2) show False by blast
    qed
    then show "d \<in> {1}" by simp
  next
    fix d :: nat assume "d \<in> {1}"
    then have d: "d = 1" by simp
    have "\<not> p dvd 1" if "p \<in> set P" for p
      using that unfolding P by (auto simp: is_prime_def)
    then show "d \<in> {d \<in> sq_divs m. \<forall>p\<in>set P. \<not> p dvd d}"
      unfolding d by (auto simp: sq_divs_def)
  qed
  have "(\<Sum>d\<in>sq_divs m. mob P d) =
    (if \<exists>p\<in>set P. p\<^sup>2 dvd m then 0
     else int (card {d \<in> sq_divs m. \<forall>p\<in>set P. \<not> p dvd d}))"
    using assms(1) by (intro mob_sum) (auto simp: P_def primes_upto_distinct primes_upto_set)
  also have "\<dots> = (if \<not> squarefree m then 0 else int (card {1::nat}))"
    by (simp only: ex one)
  finally show ?thesis unfolding P_def by simp
qed

lemma card_multiples:
  fixes q n :: nat
  assumes "0 < q"
  shows "card {m \<in> {1..n}. q dvd m} = n div q"
proof -
  have "{m \<in> {1..n}. q dvd m} = (\<lambda>k. q * k) ` {1..n div q}"
  proof (intro set_eqI iffI)
    fix m assume "m \<in> {m \<in> {1..n}. q dvd m}"
    then have m: "1 \<le> m" "m \<le> n" "q dvd m" by auto
    define k where "k = m div q"
    have mk: "m = q * k" using m(3) by (simp add: k_def)
    have "1 \<le> k" using m(1) mk by (cases "k = 0") auto
    moreover have "k \<le> n div q" unfolding k_def using m(2) by (rule div_le_mono)
    ultimately show "m \<in> (\<lambda>k. q * k) ` {1..n div q}" using mk by auto
  next
    fix m assume "m \<in> (\<lambda>k. q * k) ` {1..n div q}"
    then obtain k where "k \<in> {1..n div q}" "m = q * k" by (rule imageE)
    then have k: "m = q * k" "1 \<le> k" "k \<le> n div q" by simp_all
    have "q * k \<le> q * (n div q)" using k(3) by simp
    also have "\<dots> \<le> n" by simp
    finally have "m \<le> n" unfolding k(1) .
    moreover have "1 \<le> m" unfolding k(1) using k(2) assms by (simp add: Suc_le_eq)
    ultimately show "m \<in> {m \<in> {1..n}. q dvd m}" using k(1) by simp
  qed
  moreover have "inj_on (\<lambda>k. q * k) {1..n div q}" using assms by (auto intro!: inj_onI)
  ultimately show ?thesis by (simp add: card_image)
qed

lemma mob_weighted_sum:
  assumes "n < (Suc r)\<^sup>2"
  shows "(\<Sum>d = 1..r. mob (primes_upto (Suc r)) d * int (n div d\<^sup>2)) = int (Qcount n)"
proof -
  define P where "P = primes_upto (Suc r)"
  have "(\<Sum>d = 1..r. mob P d * int (n div d\<^sup>2))
      = (\<Sum>d\<in>{1..r}. \<Sum>m\<in>{m \<in> {1..n}. d\<^sup>2 dvd m}. mob P d)"
  proof (intro sum.cong refl)
    fix d assume "d \<in> {1..r}"
    then have "0 < d\<^sup>2" by simp
    then have "card {m \<in> {1..n}. d\<^sup>2 dvd m} = n div d\<^sup>2" by (rule card_multiples)
    then have "(\<Sum>m\<in>{m \<in> {1..n}. d\<^sup>2 dvd m}. mob P d) = int (n div d\<^sup>2) * mob P d"
      by (simp only: sum_constant of_nat_id)
    then show "mob P d * int (n div d\<^sup>2) = (\<Sum>m\<in>{m \<in> {1..n}. d\<^sup>2 dvd m}. mob P d)"
      by (simp only: mult.commute)
  qed
  also have "\<dots> = (\<Sum>m\<in>{1..n}. \<Sum>d\<in>{d \<in> {1..r}. d\<^sup>2 dvd m}. mob P d)"
    by (rule sum.swap_restrict) simp_all
  also have "\<dots> = (\<Sum>m\<in>{1..n}. if squarefree m then 1 else 0)"
  proof (intro sum.cong refl)
    fix m assume m: "m \<in> {1..n}"
    then have m0: "0 < m" and mn: "m \<le> n" by simp_all
    have "{d \<in> {1..r}. d\<^sup>2 dvd m} = sq_divs m"
    proof (intro set_eqI iffI)
      fix d assume "d \<in> {d \<in> {1..r}. d\<^sup>2 dvd m}"
      then show "d \<in> sq_divs m" by (simp add: sq_divs_def)
    next
      fix d assume d: "d \<in> sq_divs m"
      then have "d \<le> r"
        using m0 mn assms by (intro nat_sqrt_bound [of d m n r]) (auto simp: sq_divs_def)
      with d show "d \<in> {d \<in> {1..r}. d\<^sup>2 dvd m}" by (simp add: sq_divs_def Suc_le_eq)
    qed
    then show "(\<Sum>d\<in>{d \<in> {1..r}. d\<^sup>2 dvd m}. mob P d) = (if squarefree m then 1 else 0)"
      unfolding P_def using mob_sum_complete [OF m0 mn assms] by simp
  qed
  also have "\<dots> = int (card {m \<in> {1..n}. squarefree m})"
    by (simp add: sum.If_cases Int_def conj_commute)
  finally show ?thesis unfolding P_def Qcount_card .
qed

lemma Q_moebius_loop_spec:
  assumes "\<forall>p\<in>set ps. 0 < p"
  shows "\<exists>block'. Q_moebius_loop block (map int ps) = Inr block' \<and> length block' = length block
           \<and> (\<forall>i<length block. block' ! i = block ! i * mob ps (Suc i))"
  using assms
proof (induction ps arbitrary: block)
  case Nil
  then show ?case by simp
next
  case (Cons p ps)
  have p0: "0 < p" and p2: "0 < p\<^sup>2" using Cons.prems by simp_all
  from slice_update_pos [of "int p - 1" "int p" "\<lambda>v. v * (- 1)" block] p0
  obtain b1 where b1: "slice_update (\<lambda>v. v * (- 1)) block (int p - 1) (int p) = Inr b1"
    "length b1 = length block"
    "\<forall>i<length block. b1 ! i =
       (if int p - 1 \<le> int i \<and> (int i - (int p - 1)) mod int p = 0 then block ! i * (- 1) else block ! i)"
    by auto
  from slice_update_pos [of "int p * int p - 1" "int p * int p" "\<lambda>_. 0" b1] p0
  obtain b2 where b2: "slice_assign b1 (int p * int p - 1) (int p * int p) 0 = Inr b2"
    "length b2 = length b1"
    "\<forall>i<length b1. b2 ! i =
       (if int p * int p - 1 \<le> int i \<and> (int i - (int p * int p - 1)) mod (int p * int p) = 0 then 0 else b1 ! i)"
    unfolding slice_assign_def by auto
  have c1: "int p - 1 \<le> int i \<and> (int i - (int p - 1)) mod int p = 0 \<longleftrightarrow> p dvd Suc i" for i
  proof -
    have "int p \<le> int (Suc i) \<and> (int (Suc i) - int p) mod int p = 0 \<longleftrightarrow> p dvd Suc i \<and> p \<le> Suc i"
      using p0 by (rule multiple_from_iff)
    moreover have "p dvd Suc i \<longrightarrow> p \<le> Suc i" by (auto intro: dvd_imp_le)
    moreover have "int (Suc i) - int p = int i - (int p - 1)" by simp
    moreover have "int p \<le> int (Suc i) \<longleftrightarrow> int p - 1 \<le> int i" by auto
    ultimately show ?thesis by metis
  qed
  have c2: "int p * int p - 1 \<le> int i \<and> (int i - (int p * int p - 1)) mod (int p * int p) = 0
      \<longleftrightarrow> p\<^sup>2 dvd Suc i" for i
  proof -
    have "int (p\<^sup>2) \<le> int (Suc i) \<and> (int (Suc i) - int (p\<^sup>2)) mod int (p\<^sup>2) = 0
        \<longleftrightarrow> p\<^sup>2 dvd Suc i \<and> p\<^sup>2 \<le> Suc i"
      using p2 by (rule multiple_from_iff)
    moreover have "p\<^sup>2 dvd Suc i \<longrightarrow> p\<^sup>2 \<le> Suc i" by (auto intro: dvd_imp_le)
    moreover have "int (Suc i) - int (p\<^sup>2) = int i - (int p * int p - 1)"
      by (simp add: power2_eq_square)
    moreover have "int (p\<^sup>2) = int p * int p" by (simp add: power2_eq_square)
    moreover have "int (p\<^sup>2) \<le> int (Suc i) \<longleftrightarrow> int p * int p - 1 \<le> int i"
      by (auto simp: power2_eq_square)
    ultimately show ?thesis by metis
  qed
  have step: "\<forall>i<length block. b2 ! i = block ! i * mob_step p (Suc i)"
    using b1(2,3) b2(3) unfolding c1 c2 by (auto simp: mob_step_def)
  from Cons.IH [of b2] Cons.prems obtain b' where b': "Q_moebius_loop b2 (map int ps) = Inr b'"
    "length b' = length b2" "\<forall>i<length b2. b' ! i = b2 ! i * mob ps (Suc i)"
    by auto
  have "Q_moebius_loop block (map int (p # ps)) = Inr b'"
    using b1(1) b2(1) b'(1) by simp
  moreover have "\<forall>i<length block. b' ! i = block ! i * mob (p # ps) (Suc i)"
    using b'(3) step b1(2) b2(2) by (simp add: mult.assoc)
  ultimately show ?case using b'(2) b1(2) b2(2) by auto
qed

lemma Q_moebius_correct:
  assumes "0 \<le> n" "n < 2 ^ 63 - 1"
  shows "Q_moebius n = Inr (int (Qcount (nat n)))"
proof -
  define N where "N = nat n"
  define r where "r = nat (isqrt n)"
  have nN: "n = int N" using assms(1) by (simp add: N_def)
  have N63: "int N < 2 ^ 63 - 1" using assms(2) unfolding nN .
  have r: "isqrt (int N) = int r" "r\<^sup>2 \<le> N" "N < (Suc r)\<^sup>2"
    unfolding r_def nN by (rule isqrt_nat)+
  define P where "P = primes_upto (Suc r)"
  define b0 where "b0 = map (\<lambda>d. int N div d\<^sup>2) [1..int r]"
  have len: "length b0 = r" by (simp add: b0_def)
  have b0: "b0 ! i = int (N div (Suc i)\<^sup>2)" if "i < r" for i
  proof -
    have "[1..int r] ! i = 1 + int i" using that by (intro nth_upto) simp
    then have "b0 ! i = int N div (1 + int i)\<^sup>2" using that by (simp add: b0_def)
    also have "\<dots> = int (N div (Suc i)\<^sup>2)" by (simp add: zdiv_int add.commute)
    finally show ?thesis .
  qed
  have pr: "primes (int r + 1) = Inr (map int P)"
    unfolding P_def using primes_correct [of "int r + 1"] isqrt_small [OF r(2) N63]
    by (simp add: nat_add_distrib)
  have pos: "\<forall>p\<in>set P. 0 < p"
    by (auto simp: P_def primes_upto_set is_prime_def)
  from Q_moebius_loop_spec [OF pos, of b0] obtain b1 where
    b1: "Q_moebius_loop b0 (map int P) = Inr b1" "length b1 = length b0"
    "\<forall>i<length b0. b1 ! i = b0 ! i * mob P (Suc i)"
    by blast
  have "sum_list b1 = (\<Sum>i = 0..<r. b1 ! i)"
    using b1(2) len by (simp add: sum_list_sum_nth)
  also have "\<dots> = (\<Sum>i = 0..<r. mob P (Suc i) * int (N div (Suc i)\<^sup>2))"
    using b1(3) b0 len by (intro sum.cong refl) (simp add: mult.commute)
  also have "\<dots> = (\<Sum>d = Suc 0..<Suc r. mob P d * int (N div d\<^sup>2))"
    by (rule sum.shift_bounds_Suc_ivl [symmetric])
  also have "{Suc 0..<Suc r} = {1..r}" by auto
  also have "(\<Sum>d = 1..r. mob P d * int (N div d\<^sup>2)) = int (Qcount N)"
    unfolding P_def using r(3) by (rule mob_weighted_sum)
  finally have total: "sum_list b1 = int (Qcount N)" .
  have sq: "integer_sqrt (int N) = Inr (int r)"
    using isqrt_props(1) [of "int N"] r(1) by simp
  show ?thesis
    unfolding nN Q_moebius_def using sq pr b1(1) total
    by (simp add: Let_def b0_def [symmetric] N_def [symmetric])
qed

subsection \<open>The wheel sieve and the segmented sieve\<close>

text \<open>Index \<open>j\<close> of the block of \<open>luo\<close> stands for the number \<open>wheel j\<close>.\<close>

definition wheel :: "nat \<Rightarrow> nat" where
  "wheel j = 3 * j + 1 + j mod 2"

lemma wheel_or: "(3 * int j + 1) OR 1 = int (wheel j)"
proof -
  have "(3 * int j + 1) OR 1 = 3 * int j + 1 + of_bool (even (3 * int j + 1))"
    by (rule or_one_eq)
  also have "even (3 * int j + 1) \<longleftrightarrow> odd j" by simp
  also have "3 * int j + 1 + of_bool (odd j) = int (wheel j)"
    by (cases "even j") (auto simp: wheel_def odd_iff_mod_2_eq_one)
  finally show ?thesis .
qed

lemma wheel_even: "wheel (2 * a) = 6 * a + 1"
  by (simp add: wheel_def)

lemma wheel_odd: "wheel (Suc (2 * a)) = 6 * a + 5"
  by (simp add: wheel_def)

lemma parity_cases:
  fixes j :: nat
  obtains a where "j = 2 * a" | a where "j = Suc (2 * a)"
proof (cases "even j")
  case True
  then obtain a where "j = 2 * a" by (elim evenE)
  then show ?thesis by (rule that(1))
next
  case False
  then obtain a where "j = Suc (2 * a)" by (elim oddE) simp
  then show ?thesis by (rule that(2))
qed

lemma wheel_mod6: "wheel j mod 6 = 1 \<or> wheel j mod 6 = 5"
  by (cases j rule: parity_cases) (simp_all add: wheel_even wheel_odd)

lemma wheel_div3: "wheel j div 3 = j"
  by (cases j rule: parity_cases) (simp_all add: wheel_even wheel_odd)

lemma wheel_shift: "wheel (a + 2 * v) = wheel a + 6 * v"
  by (simp add: wheel_def)

lemma wheel_ge5: "1 \<le> j \<Longrightarrow> 5 \<le> wheel j"
  by (cases j rule: parity_cases) (simp_all add: wheel_even wheel_odd)

lemma wheel_inj: "wheel i = wheel j \<Longrightarrow> i = j"
  by (metis wheel_div3)

lemma luo_size:
  "j < (n + 1) div 3 + (if n mod 6 = 1 then 1 else 0) \<longleftrightarrow> wheel j \<le> n"
proof -
  define q where "q = n div 6"
  define t where "t = n mod 6"
  have n: "n = 6 * q + t" and t: "t < 6" by (simp_all add: q_def t_def)
  have nt: "n mod 6 = t" by (simp add: t_def)
  have d: "(n + 1) div 3 = 2 * q + (t + 1) div 3" unfolding n by simp
  consider "t = 0" | "t = 1" | "t = 2" | "t = 3" | "t = 4" | "t = 5" using t by linarith
  then show ?thesis
  proof cases
    case 1
    show ?thesis unfolding nt d unfolding n 1
      by (cases j rule: parity_cases; simp add: wheel_even wheel_odd; arith)
  next
    case 2
    show ?thesis unfolding nt d unfolding n 2
      by (cases j rule: parity_cases; simp add: wheel_even wheel_odd; arith)
  next
    case 3
    show ?thesis unfolding nt d unfolding n 3
      by (cases j rule: parity_cases; simp add: wheel_even wheel_odd; arith)
  next
    case 4
    show ?thesis unfolding nt d unfolding n 4
      by (cases j rule: parity_cases; simp add: wheel_even wheel_odd; arith)
  next
    case 5
    show ?thesis unfolding nt d unfolding n 5
      by (cases j rule: parity_cases; simp add: wheel_even wheel_odd; arith)
  next
    case 6
    show ?thesis unfolding nt d unfolding n 6
      by (cases j rule: parity_cases; simp add: wheel_even wheel_odd; arith)
  qed
qed

lemma wheel_inverse:
  assumes "m mod 6 = 1 \<or> m mod 6 = 5"
  shows "wheel (m div 3) = m"
proof -
  define a where "a = m div 6"
  have m: "m = 6 * a + m mod 6" by (simp add: a_def)
  from assms show ?thesis
  proof
    assume "m mod 6 = 1"
    with m have "m = 6 * a + 1" by simp
    then have "m div 3 = 2 * a" by simp
    then show ?thesis using \<open>m = 6 * a + 1\<close> by (simp add: wheel_def)
  next
    assume "m mod 6 = 5"
    with m have "m = 6 * a + 5" by simp
    then have "m div 3 = 2 * a + 1" by simp
    then show ?thesis using \<open>m = 6 * a + 5\<close> by (simp add: wheel_def)
  qed
qed

lemma wheel_strict_mono: "i < j \<Longrightarrow> wheel i < wheel j"
proof -
  assume "i < j"
  moreover have "i mod 2 < 2" "j mod 2 < 2" by simp_all
  ultimately show ?thesis unfolding wheel_def by linarith
qed

lemma wheel_0: "wheel 0 = 1"
  by (simp add: wheel_def)

text \<open>The loop variables in closed form.\<close>

definition luo_k :: "nat \<Rightarrow> nat" where
  "luo_k i = (if even i then 1 else 2)"

definition luo_c :: "nat \<Rightarrow> nat" where
  "luo_c i = (if even i then 3 * i * i + 2 * i else 3 * i * i + 4 * i + 1)"

definition luo_b :: "nat \<Rightarrow> nat" where
  "luo_b i = (if even i then 3 * i * i + 6 * i + 1 else 3 * i * i + 6 * i + 2)"

lemma luo_k_Suc: "int (luo_k (Suc i)) = 3 - int (luo_k i)"
  by (simp add: luo_k_def)

lemma luo_c_Suc: "luo_c (Suc i) = luo_c i + 4 * luo_k (Suc i) * Suc i"
  by (cases "even i") (simp_all add: luo_c_def luo_k_def algebra_simps)

lemma luo_t_Suc: "2 * wheel (Suc i) = 2 * wheel i + 4 * luo_k (Suc i)"
proof (cases i rule: parity_cases)
  case (1 a)
  have "Suc i = Suc (2 * a)" using 1 by simp
  then show ?thesis unfolding 1 by (simp add: wheel_even wheel_odd luo_k_def)
next
  case (2 a)
  have "Suc i = 2 * Suc a" using 2 by simp
  then have "wheel (Suc i) = 6 * Suc a + 1" by (simp only: wheel_even)
  moreover have "wheel i = 6 * a + 5" unfolding 2 by (rule wheel_odd)
  moreover have "luo_k (Suc i) = 1" using 2 by (simp add: luo_k_def)
  ultimately show ?thesis by simp
qed

lemma luo_b_eq: "luo_b i = luo_c i + 2 * i * (3 - luo_k i) + 1"
  by (cases "even i") (simp_all add: luo_b_def luo_c_def luo_k_def algebra_simps)

lemma even_sq_terms: "even (3 * i * i + i * c) \<longleftrightarrow> even i \<or> odd c" for i c :: nat
  by auto

lemma wheel_luo_c: "wheel (luo_c i) = wheel i * wheel i"
proof (cases "even i")
  case True
  then have e: "even (3 * i * i + 2 * i)" by simp
  have "wheel i = 3 * i + 1" using True by (simp add: wheel_def)
  moreover have "wheel (3 * i * i + 2 * i) = 3 * (3 * i * i + 2 * i) + 1"
    using e by (simp add: wheel_def)
  ultimately show ?thesis using True by (simp add: luo_c_def algebra_simps)
next
  case False
  then have e: "even (3 * i * i + 4 * i + 1)" by simp
  have "wheel i = 3 * i + 2" using False by (simp add: wheel_def odd_iff_mod_2_eq_one)
  moreover have "wheel (3 * i * i + 4 * i + 1) = 3 * (3 * i * i + 4 * i + 1) + 1"
    using e unfolding wheel_def by (simp only: even_iff_mod_2_eq_zero)
  ultimately show ?thesis using False by (simp add: luo_c_def algebra_simps)
qed

lemma wheel_luo_b:
  "wheel (luo_b i) = wheel i * (wheel i + (if even i then 4 else 2))"
proof (cases "even i")
  case True
  then have o: "odd (3 * i * i + 6 * i + 1)" by simp
  have "wheel i = 3 * i + 1" using True by (simp add: wheel_def)
  moreover have "wheel (3 * i * i + 6 * i + 1) = 3 * (3 * i * i + 6 * i + 1) + 2"
    using o unfolding wheel_def by (simp only: odd_iff_mod_2_eq_one)
  ultimately show ?thesis using True by (simp add: luo_b_def algebra_simps)
next
  case False
  then have o: "odd (3 * i * i + 6 * i + 2)" by simp
  have "wheel i = 3 * i + 2" using False by (simp add: wheel_def odd_iff_mod_2_eq_one)
  moreover have "wheel (3 * i * i + 6 * i + 2) = 3 * (3 * i * i + 6 * i + 2) + 2"
    using o unfolding wheel_def by (simp only: odd_iff_mod_2_eq_one)
  ultimately show ?thesis using False by (simp add: luo_b_def algebra_simps)
qed

lemma wheel_mod6_parity:
  "wheel i mod 6 = (if even i then 1 else 5)"
  by (cases i rule: parity_cases) (simp_all add: wheel_even wheel_odd)

lemma cofactor_mod6:
  fixes p q :: nat
  assumes "(p * q) mod 6 = 1 \<or> (p * q) mod 6 = 5"
  shows "q mod 6 = 1 \<or> q mod 6 = 5"
proof -
  have e: "(p * q) mod 6 = (p mod 6) * (q mod 6) mod 6" by (simp add: mod_mult_eq)
  have "p mod 6 < 6" "q mod 6 < 6" by simp_all
  then consider "q mod 6 = 0" | "q mod 6 = 1" | "q mod 6 = 2" | "q mod 6 = 3"
    | "q mod 6 = 4" | "q mod 6 = 5" by linarith
  then show ?thesis
  proof cases
    case 1
    with assms e show ?thesis by simp
  next
    case 2
    then show ?thesis by simp
  next
    case 3
    have "even q" using 3 by presburger
    then have "even (p * q)" by simp
    then show ?thesis using assms by presburger
  next
    case 4
    have "3 dvd q" using 4 by presburger
    then have "3 dvd p * q" by simp
    then show ?thesis using assms by presburger
  next
    case 5
    have "even q" using 5 by presburger
    then have "even (p * q)" by simp
    then show ?thesis using assms by presburger
  next
    case 6
    then show ?thesis by simp
  qed
qed

lemma cofactor_shape:
  fixes p q :: nat
  assumes "p \<le> q" "p mod 6 = 1 \<or> p mod 6 = 5" "q mod 6 = 1 \<or> q mod 6 = 5"
  shows "\<exists>u. q = p + 6 * u \<or> q = p + (if p mod 6 = 1 then 4 else 2) + 6 * u"
proof -
  define a where "a = p div 6"
  define b where "b = q div 6"
  have p: "p = 6 * a + p mod 6" and q: "q = 6 * b + q mod 6" by (simp_all add: a_def b_def)
  have ab: "a \<le> b" unfolding a_def b_def using assms(1) by (rule div_le_mono)
  show ?thesis
  proof (cases "p mod 6 = q mod 6")
    case True
    have "q = p + 6 * (b - a)" using p q True ab by simp
    then show ?thesis by blast
  next
    case False
    show ?thesis
    proof (cases "p mod 6 = 1")
      case True
      with False assms(3) have q5: "q mod 6 = 5" by simp
      have "q = p + 4 + 6 * (b - a)" using p q True q5 ab by simp
      then show ?thesis using True by auto
    next
      case p5: False
      with assms(2) have p5': "p mod 6 = 5" by simp
      with False assms(3) have q1: "q mod 6 = 1" by simp
      have "a \<noteq> b" using p q p5' q1 assms(1) by auto
      with ab have "a < b" by simp
      then have "q = p + 2 + 6 * (b - a - 1)" using p q p5' q1 by simp
      then show ?thesis using p5' by auto
    qed
  qed
qed

definition luo_marked :: "nat \<Rightarrow> nat \<Rightarrow> bool" where
  "luo_marked i j \<longleftrightarrow>
     (luo_c i \<le> j \<and> (j - luo_c i) mod (2 * wheel i) = 0)
     \<or> (luo_b i \<le> j \<and> (j - luo_b i) mod (2 * wheel i) = 0)"

lemma from_start_step:
  fixes j c t :: nat
  shows "c \<le> j \<and> (j - c) mod t = 0 \<longleftrightarrow> (\<exists>u. j = c + t * u)"
proof
  assume a: "c \<le> j \<and> (j - c) mod t = 0"
  then have "t dvd j - c" by (simp add: mod_eq_0_iff_dvd)
  then obtain u where "j - c = t * u" by (rule dvdE)
  with a have "j = c + t * u" by simp
  then show "\<exists>u. j = c + t * u" by blast
next
  assume "\<exists>u. j = c + t * u"
  then show "c \<le> j \<and> (j - c) mod t = 0" by auto
qed

lemma luo_marked_iff:
  "luo_marked i j \<longleftrightarrow> wheel i dvd wheel j \<and> wheel i * wheel i \<le> wheel j"
proof
  define p where "p = wheel i"
  assume "luo_marked i j"
  then consider u where "j = luo_c i + 2 * p * u" | u where "j = luo_b i + 2 * p * u"
    unfolding luo_marked_def from_start_step p_def by blast
  then show "wheel i dvd wheel j \<and> wheel i * wheel i \<le> wheel j"
  proof cases
    case 1
    have "wheel j = wheel (luo_c i + 2 * (p * u))" unfolding 1 by (simp add: mult.assoc)
    also have "\<dots> = p * p + 6 * (p * u)" unfolding wheel_shift wheel_luo_c p_def ..
    also have "\<dots> = p * (p + 6 * u)" by (simp add: algebra_simps)
    finally have "wheel j = p * (p + 6 * u)" .
    then show ?thesis unfolding p_def [symmetric] by simp
  next
    case 2
    define e :: nat where "e = (if even i then 4 else 2)"
    have "wheel j = wheel (luo_b i + 2 * (p * u))" unfolding 2 by (simp add: mult.assoc)
    also have "\<dots> = p * (p + e) + 6 * (p * u)" unfolding wheel_shift wheel_luo_b p_def e_def ..
    also have "\<dots> = p * (p + e + 6 * u)" by (simp add: algebra_simps)
    finally have "wheel j = p * (p + e + 6 * u)" .
    then show ?thesis unfolding p_def [symmetric] by simp
  qed
next
  define p where "p = wheel i"
  assume a: "wheel i dvd wheel j \<and> wheel i * wheel i \<le> wheel j"
  then obtain q where q: "wheel j = p * q" unfolding p_def by (auto elim: dvdE)
  have p0: "0 < p" unfolding p_def wheel_def by simp
  have "p * p \<le> p * q" using a q by (simp add: p_def)
  then have pq: "p \<le> q" using p0 by simp
  have pm: "p mod 6 = 1 \<or> p mod 6 = 5" unfolding p_def by (rule wheel_mod6)
  have "(p * q) mod 6 = 1 \<or> (p * q) mod 6 = 5" unfolding q [symmetric] by (rule wheel_mod6)
  then have qm: "q mod 6 = 1 \<or> q mod 6 = 5" by (rule cofactor_mod6)
  define e :: nat where "e = (if even i then 4 else 2)"
  have e: "(if p mod 6 = 1 then 4 else 2) = e"
    unfolding p_def e_def wheel_mod6_parity by simp
  from cofactor_shape [OF pq pm qm] obtain u where
    u: "q = p + 6 * u \<or> q = p + e + 6 * u" unfolding e by blast
  then show "luo_marked i j"
  proof
    assume "q = p + 6 * u"
    then have "wheel j = p * p + 6 * (p * u)" unfolding q by (simp add: algebra_simps)
    also have "\<dots> = wheel (luo_c i + 2 * (p * u))" unfolding wheel_shift wheel_luo_c p_def ..
    finally have "j = luo_c i + 2 * (p * u)" by (rule wheel_inj)
    then have "\<exists>u. j = luo_c i + 2 * wheel i * u" unfolding p_def by (auto simp: mult.assoc)
    then show ?thesis unfolding luo_marked_def from_start_step by blast
  next
    assume "q = p + e + 6 * u"
    then have "wheel j = p * (p + e) + 6 * (p * u)" unfolding q by (simp add: algebra_simps)
    also have "\<dots> = wheel (luo_b i + 2 * (p * u))" unfolding wheel_shift wheel_luo_b p_def e_def ..
    finally have "j = luo_b i + 2 * (p * u)" by (rule wheel_inj)
    then have "\<exists>u. j = luo_b i + 2 * wheel i * u" unfolding p_def by (auto simp: mult.assoc)
    then show ?thesis unfolding luo_marked_def from_start_step by blast
  qed
qed

lemma prime_wheel:
  assumes "is_prime p" "p dvd wheel j"
  shows "\<exists>i. 1 \<le> i \<and> p = wheel i"
proof -
  from assms(2) obtain q where q: "wheel j = p * q" by (rule dvdE)
  have "(q * p) mod 6 = 1 \<or> (q * p) mod 6 = 5"
    using wheel_mod6 [of j] unfolding q by (simp only: mult.commute)
  then have "p mod 6 = 1 \<or> p mod 6 = 5" by (rule cofactor_mod6)
  then have w: "wheel (p div 3) = p" by (rule wheel_inverse)
  have "p div 3 \<noteq> 0"
  proof
    assume "p div 3 = 0"
    with w have "p = 1" by (simp add: wheel_0)
    with assms(1) show False by (simp add: is_prime_def)
  qed
  with w show ?thesis by (intro exI [of _ "p div 3"]) simp
qed

text \<open>The state of the block of \<open>luo\<close> after the indices up to \<open>m\<close> have been processed.\<close>

definition wsieved :: "nat \<Rightarrow> nat \<Rightarrow> bool" where
  "wsieved m j \<longleftrightarrow> 1 \<le> j \<and> \<not> (\<exists>i. 1 \<le> i \<and> i \<le> m \<and> is_prime (wheel i) \<and> luo_marked i j)"

lemma wsieved_0: "wsieved 0 j \<longleftrightarrow> 1 \<le> j"
  by (auto simp: wsieved_def)

lemma wsieved_Suc:
  "wsieved (Suc m) j \<longleftrightarrow> wsieved m j \<and> \<not> (is_prime (wheel (Suc m)) \<and> luo_marked (Suc m) j)"
  unfolding wsieved_def by (auto simp: le_Suc_eq)

lemma wsieved_next: "wsieved m (Suc m) \<longleftrightarrow> is_prime (wheel (Suc m))"
proof
  assume s: "wsieved m (Suc m)"
  have w1: "1 < wheel (Suc m)" using wheel_ge5 [of "Suc m"] by simp
  show "is_prime (wheel (Suc m))"
  proof (rule ccontr)
    assume np: "\<not> is_prime (wheel (Suc m))"
    from small_prime_factor [OF w1 this] obtain p where
      p: "is_prime p" "p dvd wheel (Suc m)" "p\<^sup>2 \<le> wheel (Suc m)" by blast
    from prime_wheel [OF p(1,2)] obtain i where i: "1 \<le> i" "p = wheel i" by blast
    have "i \<le> m"
    proof (rule ccontr)
      assume "\<not> i \<le> m"
      then have "Suc m = i \<or> Suc m < i" by auto
      then have "wheel (Suc m) \<le> wheel i" using wheel_strict_mono [of "Suc m" i] by auto
      moreover have "p \<noteq> wheel (Suc m)" using p(1) np by auto
      moreover have "p \<le> wheel (Suc m)" using p(2) w1 by (intro dvd_imp_le) auto
      ultimately show False using i(2) by simp
    qed
    moreover have "luo_marked i (Suc m)"
      unfolding luo_marked_iff using p(2,3) i(2) by (simp add: power2_eq_square)
    ultimately show False using s i p(1) unfolding wsieved_def by blast
  qed
next
  assume p: "is_prime (wheel (Suc m))"
  have False if i: "1 \<le> i" "i \<le> m" "luo_marked i (Suc m)" for i
  proof -
    have "wheel i dvd wheel (Suc m)" using i(3) unfolding luo_marked_iff by simp
    then have "wheel i = 1 \<or> wheel i = wheel (Suc m)" using p unfolding is_prime_iff by blast
    moreover have "5 \<le> wheel i" using i(1) by (rule wheel_ge5)
    moreover have "wheel i < wheel (Suc m)" using i(2) by (intro wheel_strict_mono) simp
    ultimately show False by simp
  qed
  then show "wsieved m (Suc m)" unfolding wsieved_def by auto
qed

lemma wsieved_final:
  assumes "wheel j \<le> n" "n < (Suc r)\<^sup>2"
  shows "wsieved (r div 3) j \<longleftrightarrow> 1 \<le> j \<and> is_prime (wheel j)"
proof
  assume s: "wsieved (r div 3) j"
  then have j: "1 \<le> j" by (simp add: wsieved_def)
  then have w1: "1 < wheel j" using wheel_ge5 [of j] by simp
  have "is_prime (wheel j)"
  proof (rule ccontr)
    assume "\<not> is_prime (wheel j)"
    from small_prime_factor [OF w1 this] obtain p where
      p: "is_prime p" "p dvd wheel j" "p\<^sup>2 \<le> wheel j" by blast
    from prime_wheel [OF p(1,2)] obtain i where i: "1 \<le> i" "p = wheel i" by blast
    have "p \<le> r"
    proof (rule ccontr)
      assume "\<not> p \<le> r"
      then have "Suc r \<le> p" by simp
      then have "(Suc r)\<^sup>2 \<le> p\<^sup>2" by (rule power_mono) simp
      with p(3) assms show False by linarith
    qed
    then have "wheel i div 3 \<le> r div 3" unfolding i(2) by (rule div_le_mono)
    then have "i \<le> r div 3" by (simp only: wheel_div3)
    moreover have "luo_marked i j"
      unfolding luo_marked_iff using p(2,3) i(2) by (simp add: power2_eq_square)
    ultimately show False using s i p(1) unfolding wsieved_def by blast
  qed
  with j show "1 \<le> j \<and> is_prime (wheel j)" ..
next
  assume a: "1 \<le> j \<and> is_prime (wheel j)"
  have False if i: "1 \<le> i" "luo_marked i j" for i
  proof -
    have d: "wheel i dvd wheel j" "wheel i * wheel i \<le> wheel j"
      using i(2) unfolding luo_marked_iff by simp_all
    then have "wheel i = 1 \<or> wheel i = wheel j" using a unfolding is_prime_iff by blast
    moreover have w5: "5 \<le> wheel i" using i(1) by (rule wheel_ge5)
    ultimately have e: "wheel i = wheel j" by simp
    have "wheel i * 5 \<le> wheel i * wheel i" using w5 by (intro mult_left_mono) simp_all
    with d(2) e w5 show False by simp
  qed
  with a show "wsieved (r div 3) j" unfolding wsieved_def by auto
qed

lemma nat_slice_iff:
  fixes c j t :: nat
  shows "int c \<le> int j \<and> (int j - int c) mod int t = 0 \<longleftrightarrow> c \<le> j \<and> (j - c) mod t = 0"
proof (cases "c \<le> j")
  case True
  then have "int j - int c = int (j - c)" by simp
  then have "(int j - int c) mod int t = int ((j - c) mod t)" by (simp only: zmod_int)
  with True show ?thesis by simp
next
  case False
  then show ?thesis by simp
qed

lemma luo_mark:
  assumes "0 < t"
  shows "\<exists>ys. bind_err (slice_assign block (int c) (int t) False)
                 (\<lambda>block. slice_assign block (int b) (int t) False) = Inr ys
           \<and> length ys = length block
           \<and> (\<forall>j<length block. ys ! j =
                (if (c \<le> j \<and> (j - c) mod t = 0) \<or> (b \<le> j \<and> (j - b) mod t = 0)
                 then False else block ! j))"
proof -
  from slice_update_pos [of "int c" "int t" "\<lambda>_. False" block] assms
  obtain xs where xs: "slice_assign block (int c) (int t) False = Inr xs"
    "length xs = length block"
    "\<forall>j<length block. xs ! j = (if c \<le> j \<and> (j - c) mod t = 0 then False else block ! j)"
    unfolding slice_assign_def nat_slice_iff by auto
  from slice_update_pos [of "int b" "int t" "\<lambda>_. False" xs] assms
  obtain ys where ys: "slice_assign xs (int b) (int t) False = Inr ys"
    "length ys = length xs"
    "\<forall>j<length xs. ys ! j = (if b \<le> j \<and> (j - b) mod t = 0 then False else xs ! j)"
    unfolding slice_assign_def nat_slice_iff by auto
  have "\<forall>j<length block. ys ! j =
          (if (c \<le> j \<and> (j - c) mod t = 0) \<or> (b \<le> j \<and> (j - b) mod t = 0)
           then False else block ! j)"
    using xs(2,3) ys(3) by auto
  then show ?thesis using xs(1,2) ys(1,2) by simp
qed

lemma bind_err_assoc:
  "bind_err (bind_err r f) g = bind_err r (\<lambda>x. bind_err (f x) g)"
  by (cases r) simp_all

lemma luo_loop_step:
  "luo_loop block (int (luo_c m)) (int (luo_k m)) (2 * int (wheel m)) (int (Suc m) # is) =
     bind_err (get_item block (int (Suc m))) (\<lambda>flag.
       if flag
       then bind_err (bind_err (slice_assign block (int (luo_c (Suc m))) (int (2 * wheel (Suc m))) False)
                 (\<lambda>block. slice_assign block (int (luo_b (Suc m))) (int (2 * wheel (Suc m))) False))
              (\<lambda>block. luo_loop block (int (luo_c (Suc m))) (int (luo_k (Suc m)))
                        (2 * int (wheel (Suc m))) is)
       else luo_loop block (int (luo_c (Suc m))) (int (luo_k (Suc m))) (2 * int (wheel (Suc m))) is)"
proof -
  have k: "3 - int (luo_k m) = int (luo_k (Suc m))" by (simp only: luo_k_Suc)
  have "int (luo_c (Suc m)) = int (luo_c m) + 4 * int (luo_k (Suc m)) * int (Suc m)"
    by (simp only: luo_c_Suc of_nat_add of_nat_mult of_nat_numeral)
  then have c: "int (luo_c m) + 4 * int (luo_k (Suc m)) * int (Suc m) = int (luo_c (Suc m))" by simp
  have "int (2 * wheel (Suc m)) = int (2 * wheel m + 4 * luo_k (Suc m))"
    by (simp only: luo_t_Suc)
  then have t: "2 * int (wheel m) + 4 * int (luo_k (Suc m)) = int (2 * wheel (Suc m))" by simp
  have k2: "luo_k (Suc m) \<le> 3" by (simp add: luo_k_def)
  have "int (luo_b (Suc m)) = int (luo_c (Suc m) + 2 * Suc m * (3 - luo_k (Suc m)) + 1)"
    by (simp only: luo_b_eq [symmetric])
  also have "\<dots> = int (luo_c (Suc m)) + 2 * int (Suc m) * int (3 - luo_k (Suc m)) + 1"
    by (simp only: of_nat_add of_nat_mult of_nat_numeral of_nat_1)
  also have "int (3 - luo_k (Suc m)) = 3 - int (luo_k (Suc m))"
    using k2 by (simp only: of_nat_diff of_nat_numeral)
  finally have b: "int (luo_c (Suc m)) + 2 * int (Suc m) * (3 - int (luo_k (Suc m))) + 1
    = int (luo_b (Suc m))" by simp
  have t2: "2 * int (wheel (Suc m)) = int (2 * wheel (Suc m))" by simp
  show ?thesis
    unfolding luo_loop.simps Let_def k c t b t2 bind_err_assoc ..
qed

lemma luo_loop_sieved:
  assumes "m \<le> r" "m < r \<longrightarrow> r < length block"
    and "\<forall>j<length block. block ! j = wsieved m j"
  shows "\<exists>block'. luo_loop block (int (luo_c m)) (int (luo_k m)) (2 * int (wheel m))
                    [int m + 1..int r] = Inr block'
           \<and> length block' = length block \<and> (\<forall>j<length block. block' ! j = wsieved r j)"
  using assms
proof (induction "r - m" arbitrary: m block)
  case 0
  then have "m = r" by simp
  with 0 show ?case by simp
next
  case (Suc d)
  then have mr: "m < r" by simp
  define k where "k = Suc m"
  have kl: "k < length block" using mr Suc.prems(2) by (simp add: k_def)
  have ik: "int m + 1 = int k" by (simp add: k_def)
  have list: "[int m + 1..int r] = int k # [int k + 1..int r]"
    unfolding ik using mr by (intro upto_rec1) (simp add: k_def)
  have "get_item block (int k) = Inr (block ! nat (int k))"
    using kl by (intro get_item_Inr) simp_all
  also have "block ! nat (int k) = wsieved m k" using kl Suc.prems(3) by (simp only: nat_int)
  also have "\<dots> = is_prime (wheel k)" unfolding k_def by (rule wsieved_next)
  finally have g: "get_item block (int k) = Inr (is_prime (wheel k))" .
  have t0: "0 < 2 * wheel k" by (simp add: wheel_def)
  let ?next = "\<lambda>block. luo_loop block (int (luo_c k)) (int (luo_k k)) (2 * int (wheel k))
                 [int k + 1..int r]"
  obtain b1 where b1: "length b1 = length block" "\<forall>j<length block. b1 ! j = wsieved k j"
    "luo_loop block (int (luo_c m)) (int (luo_k m)) (2 * int (wheel m)) [int m + 1..int r]
       = ?next b1"
  proof (cases "is_prime (wheel k)")
    case True
    from luo_mark [OF t0, of block "luo_c k" "luo_b k"]
    obtain ys where ys:
      "bind_err (slice_assign block (int (luo_c k)) (int (2 * wheel k)) False)
         (\<lambda>block. slice_assign block (int (luo_b k)) (int (2 * wheel k)) False) = Inr ys"
      "length ys = length block"
      "\<forall>j<length block. ys ! j = (if luo_marked k j then False else block ! j)"
      unfolding luo_marked_def by blast
    have "\<forall>j<length block. ys ! j = wsieved k j"
      using ys(3) Suc.prems(3) True unfolding k_def wsieved_Suc [of m] by auto
    moreover have "luo_loop block (int (luo_c m)) (int (luo_k m)) (2 * int (wheel m))
        [int m + 1..int r] = ?next ys"
      unfolding list k_def luo_loop_step
      using g True ys(1) unfolding k_def by simp
    ultimately show ?thesis using ys(2) that by blast
  next
    case False
    have "\<forall>j<length block. block ! j = wsieved k j"
      using Suc.prems(3) False unfolding k_def wsieved_Suc [of m] by auto
    moreover have "luo_loop block (int (luo_c m)) (int (luo_k m)) (2 * int (wheel m))
        [int m + 1..int r] = ?next block"
      unfolding list k_def luo_loop_step
      using g False unfolding k_def by simp
    ultimately show ?thesis using that by blast
  qed
  have "\<exists>block'. ?next b1 = Inr block'
           \<and> length block' = length b1 \<and> (\<forall>j<length b1. block' ! j = wsieved r j)"
  proof (rule Suc.hyps(1))
    show "d = r - k" using Suc.hyps(2) by (simp add: k_def)
    show "k \<le> r" using mr by (simp add: k_def)
    show "k < r \<longrightarrow> r < length b1" using Suc.prems(2) mr b1(1) by simp
    show "\<forall>j<length b1. b1 ! j = wsieved k j" using b1(1,2) by simp
  qed
  then show ?case using b1 by auto
qed

definition luo_block_size :: "nat \<Rightarrow> nat" where
  "luo_block_size n = (n + 1) div 3 + (if n mod 6 = 1 then 1 else 0)"

lemma luo_block_size_int:
  "(int n + 1) div 3 + (if int n mod 6 = 1 then 1 else 0) = int (luo_block_size n)"
proof -
  have "(int n + 1) div 3 = int ((n + 1) div 3)" by (simp add: zdiv_int)
  moreover have "int n mod 6 = 1 \<longleftrightarrow> n mod 6 = 1"
  proof -
    have "int n mod 6 = int (n mod 6)" by (simp add: zmod_int)
    then show ?thesis by simp
  qed
  ultimately show ?thesis by (simp add: luo_block_size_def)
qed

lemma luo_index_bound:
  fixes n r :: nat
  assumes "r\<^sup>2 \<le> n" "0 < r div 3"
  shows "r div 3 < luo_block_size n"
proof -
  have r3: "3 \<le> r" using assms(2) by (cases "r < 3") simp_all
  have "wheel (r div 3) \<le> 3 * (r div 3) + 2" unfolding wheel_def
    using mod_less_divisor [of 2 "r div 3"] by linarith
  also have "\<dots> \<le> r + 2" by simp
  also have "\<dots> \<le> r * 3" using r3 by simp
  also have "\<dots> \<le> r * r" using r3 by (intro mult_left_mono) simp_all
  also have "\<dots> \<le> n" using assms(1) by (simp add: power2_eq_square)
  finally show ?thesis unfolding luo_block_size_def luo_size .
qed

lemma luo_block_size_le:
  assumes "1 \<le> n"
  shows "luo_block_size n \<le> n"
proof (rule ccontr)
  assume "\<not> luo_block_size n \<le> n"
  then have "n < luo_block_size n" by simp
  then have "wheel n \<le> n" unfolding luo_block_size_def luo_size .
  then show False by (simp add: wheel_def)
qed

lemma luo_run:
  fixes n :: nat
  assumes "1 \<le> n" "int n < 2 ^ 63"
  shows "\<exists>block. luo (int n) = Inr (2 # 3 # map (\<lambda>j. (3 * j + 1) OR 1) (flatnonzero block))
           \<and> length block = luo_block_size n
           \<and> (\<forall>j<luo_block_size n. block ! j = (1 \<le> j \<and> is_prime (wheel j)))"
proof -
  define sz where "sz = luo_block_size n"
  define r where "r = nat (isqrt (int n))"
  have r: "isqrt (int n) = int r" "r\<^sup>2 \<le> n" "n < (Suc r)\<^sup>2"
    unfolding r_def by (rule isqrt_nat)+
  have "wheel 0 \<le> n" using assms(1) by (simp add: wheel_0)
  then have sz0: "0 < sz" unfolding sz_def luo_block_size_def luo_size .
  then obtain s' where s': "sz = Suc s'" by (cases sz) simp_all
  define b0 where "b0 = (replicate sz True)[0 := False]"
  have b0: "length b0 = sz" "\<forall>j<sz. b0 ! j = (0 < j)"
    unfolding b0_def s' by (rule count_block_init)+
  have init: "\<forall>j<length b0. b0 ! j = wsieved 0 j"
    using b0 by (auto simp: wsieved_0)
  have bound: "0 < r div 3 \<longrightarrow> r div 3 < length b0"
    unfolding b0(1) sz_def using luo_index_bound [OF r(2)] by blast
  from luo_loop_sieved [of 0 "r div 3" b0, OF _ bound init]
  obtain b1 where b1:
    "luo_loop b0 (int (luo_c 0)) (int (luo_k 0)) (2 * int (wheel 0)) [int 0 + 1..int (r div 3)] = Inr b1"
    "length b1 = sz" "\<forall>j<sz. b1 ! j = wsieved (r div 3) j"
    unfolding b0(1) by auto
  have loop: "luo_loop b0 0 1 2 [1..int r div 3] = Inr b1"
    using b1(1) by (simp add: luo_c_def luo_k_def wheel_0 zdiv_int)
  have fin: "\<forall>j<sz. b1 ! j = (1 \<le> j \<and> is_prime (wheel j))"
  proof (intro allI impI)
    fix j assume "j < sz"
    then have "wheel j \<le> n" unfolding sz_def luo_block_size_def luo_size .
    then have "wsieved (r div 3) j \<longleftrightarrow> 1 \<le> j \<and> is_prime (wheel j)"
      using r(3) by (rule wsieved_final)
    with b1(3) \<open>j < sz\<close> show "b1 ! j = (1 \<le> j \<and> is_prime (wheel j))" by simp
  qed
  have "sz \<le> n" unfolding sz_def using assms(1) by (rule luo_block_size_le)
  then have "int sz < 2 ^ 63" using assms(2) by simp
  then have "np_ones (int sz) = Inr (replicate (nat (int sz)) True)"
    by (intro np_ones_Inr) simp_all
  then have "np_ones (int sz) = Inr (replicate sz True)" by (simp only: nat_int)
  moreover have "set_item (replicate sz True) 0 False = Inr b0"
    unfolding b0_def using sz0 by (subst set_item_Inr) simp_all
  moreover have "integer_sqrt (int n) = Inr (int r)"
    using isqrt_props(1) [of "int n"] r(1) by simp
  ultimately have "luo (int n) = Inr (2 # 3 # map (\<lambda>j. (3 * j + 1) OR 1) (flatnonzero b1))"
    unfolding luo_def luo_block_size_int sz_def [symmetric] using loop by simp
  with b1(2) fin show ?thesis unfolding sz_def by blast
qed

lemma wheel_index_list:
  fixes n :: nat
  shows "map wheel (filter (\<lambda>j. 1 \<le> j \<and> is_prime (wheel j)) [0..<luo_block_size n])
           = filter is_prime [4..<Suc n]"
proof (rule strict_sorted_equal)
  let ?xs = "filter (\<lambda>j. 1 \<le> j \<and> is_prime (wheel j)) [0..<luo_block_size n]"
  have "sorted_wrt (<) ?xs" by (intro sorted_wrt_filter) (rule sorted_wrt_upt)
  then have "sorted_wrt (\<lambda>i j. wheel i < wheel j) ?xs"
    by (rule sorted_wrt_mono_rel [rotated]) (rule wheel_strict_mono)
  then show "sorted_wrt (<) (map wheel ?xs)" by (simp only: sorted_wrt_map)
  show "sorted_wrt (<) (filter is_prime [4..<Suc n])"
    by (intro sorted_wrt_filter) (rule sorted_wrt_upt)
  show "set (map wheel ?xs) = set (filter is_prime [4..<Suc n])"
  proof (intro set_eqI iffI)
    fix p assume "p \<in> set (map wheel ?xs)"
    then obtain j where j: "p = wheel j" "1 \<le> j" "is_prime (wheel j)" "j < luo_block_size n"
      by auto
    have "wheel j \<le> n" using j(4) unfolding luo_block_size_def luo_size .
    moreover have "5 \<le> wheel j" using j(2) by (rule wheel_ge5)
    ultimately show "p \<in> set (filter is_prime [4..<Suc n])"
      using j(1,3) by (simp del: upt_Suc)
  next
    fix p assume "p \<in> set (filter is_prime [4..<Suc n])"
    then have p: "4 \<le> p" "p \<le> n" "is_prime p" by (simp_all del: upt_Suc)
    have "p dvd p * 1" by simp
    have m: "p mod 6 = 1 \<or> p mod 6 = 5"
    proof -
      have "\<not> 2 dvd p" using p(1,3) unfolding is_prime_iff by auto
      moreover have "\<not> 3 dvd p" using p(1,3) unfolding is_prime_iff by auto
      moreover have "p mod 6 < 6" by simp
      ultimately show ?thesis by presburger
    qed
    then have w: "wheel (p div 3) = p" by (rule wheel_inverse)
    have "1 \<le> p div 3" using p(1) by simp
    moreover have "p div 3 < luo_block_size n"
      unfolding luo_block_size_def luo_size w using p(2) .
    ultimately have "p div 3 \<in> set ?xs" using p(3) w by simp
    then have "wheel (p div 3) \<in> set (map wheel ?xs)" by (simp only: set_map imageI)
    then show "p \<in> set (map wheel ?xs)" unfolding w .
  qed
qed

lemma luo_correct:
  fixes n :: nat
  assumes "1 \<le> n" "int n < 2 ^ 63"
  shows "luo (int n) = Inr (2 # 3 # map int (filter is_prime [4..<Suc n]))"
proof -
  from luo_run [OF assms] obtain block where
    b: "luo (int n) = Inr (2 # 3 # map (\<lambda>j. (3 * j + 1) OR 1) (flatnonzero block))"
       "length block = luo_block_size n"
       "\<forall>j<luo_block_size n. block ! j = (1 \<le> j \<and> is_prime (wheel j))" by blast
  let ?xs = "filter (\<lambda>j. 1 \<le> j \<and> is_prime (wheel j)) [0..<luo_block_size n]"
  have "flatnonzero block = map int ?xs"
    using b(3) unfolding b(2) [symmetric] by (rule flatnonzero_pred)
  then have "map (\<lambda>j. (3 * j + 1) OR 1) (flatnonzero block) = map (\<lambda>j. int (wheel j)) ?xs"
    by (simp add: wheel_or o_def)
  also have "\<dots> = map int (map wheel ?xs)" by (simp add: o_def)
  also have "\<dots> = map int (filter is_prime [4..<Suc n])" by (simp only: wheel_index_list)
  finally show ?thesis using b(1) by simp
qed

lemma primes_upto_3:
  assumes "3 \<le> n"
  shows "primes_upto n = 2 # 3 # filter is_prime [4..<Suc n]"
proof -
  have "[2..<Suc n] = 2 # [Suc 2..<Suc n]" using assms by (intro upt_conv_Cons) simp
  also have "[Suc 2..<Suc n] = Suc 2 # [Suc (Suc 2)..<Suc n]"
    using assms by (intro upt_conv_Cons) simp
  also have "Suc 2 = 3" by simp
  also have "Suc 3 = 4" by simp
  finally have "[2..<Suc n] = 2 # 3 # [4..<Suc n]" .
  moreover have "is_prime 2" "is_prime 3" by (simp_all add: is_prime_def upt_conv_Cons)
  ultimately show ?thesis by (simp add: primes_upto_def)
qed

lemma luo_primes:
  assumes "3 \<le> n" "n < 2 ^ 63"
  shows "luo n = Inr (map int (primes_upto (nat n)))"
proof -
  have "luo (int (nat n)) = Inr (2 # 3 # map int (filter is_prime [4..<Suc (nat n)]))"
    using assms by (intro luo_correct) simp_all
  moreover have "primes_upto (nat n) = 2 # 3 # filter is_prime [4..<Suc (nat n)]"
    using assms by (intro primes_upto_3) simp
  ultimately show ?thesis using assms by simp
qed

lemma first_multiple:
  fixes start p :: int
  assumes "0 < p"
  defines "off \<equiv> (start div p + (if start mod p > 0 then 1 else 0)) * p - start"
  shows "0 \<le> off" "off < p" "p dvd start + off"
proof -
  have e: "start = start div p * p + start mod p" by simp
  have m: "0 \<le> start mod p" "start mod p < p" using assms(1) by simp_all
  show "p dvd start + off" by (simp add: off_def)
  show "0 \<le> off"
  proof (cases "start mod p > 0")
    case True
    then have "off = p - start mod p" unfolding off_def using e by (simp add: algebra_simps)
    with m show ?thesis by simp
  next
    case False
    then have "off = - (start mod p)" unfolding off_def using e by (simp add: algebra_simps)
    with False m show ?thesis by simp
  qed
  show "off < p"
  proof (cases "start mod p > 0")
    case True
    then have "off = p - start mod p" unfolding off_def using e by (simp add: algebra_simps)
    with True show ?thesis by simp
  next
    case False
    then have "off = - (start mod p)" unfolding off_def using e by (simp add: algebra_simps)
    with False m assms(1) show ?thesis by simp
  qed
qed

lemma block_multiple_iff:
  fixes start p off j :: int
  assumes "0 < p" "0 \<le> off" "off < p" "p dvd start + off" "0 \<le> j"
  shows "off \<le> j \<and> (j - off) mod p = 0 \<longleftrightarrow> p dvd start + j"
proof
  assume "off \<le> j \<and> (j - off) mod p = 0"
  then have "p dvd j - off" by (simp add: mod_eq_0_iff_dvd)
  then have "p dvd (j - off) + (start + off)" using assms(4) by (rule dvd_add)
  then show "p dvd start + j" by (simp add: algebra_simps)
next
  assume "p dvd start + j"
  then have "p dvd (start + j) - (start + off)" using assms(4) by (rule dvd_diff)
  then have d: "p dvd j - off" by (simp add: algebra_simps)
  then obtain u where u: "j - off = p * u" by (rule dvdE)
  have "- p < p * u" using assms(3,5) unfolding u [symmetric] by simp
  then have "p * (- 1) < p * u" by simp
  then have "- 1 < u" using assms(1) by (simp only: mult_less_cancel_left_pos)
  then have "0 \<le> p * u" using assms(1) by simp
  then have "off \<le> j" unfolding u [symmetric] by simp
  with d show "off \<le> j \<and> (j - off) mod p = 0" by (simp add: mod_eq_0_iff_dvd)
qed

lemma sieve_block_loop_spec:
  assumes "\<forall>p\<in>set ps. 0 < p"
  shows "\<exists>block'. sieve_block_loop block start ps = Inr block'
           \<and> length block' = length block
           \<and> (\<forall>j<length block. block' ! j
                = (block ! j \<and> \<not> (\<exists>p\<in>set ps. p dvd start + int j)))"
  using assms
proof (induction ps arbitrary: block)
  case Nil
  then show ?case by simp
next
  case (Cons p ps)
  have p0: "0 < p" using Cons.prems by simp
  define off where "off = (start div p + (if start mod p > 0 then 1 else 0)) * p - start"
  have off: "0 \<le> off" "off < p" "p dvd start + off"
    unfolding off_def using p0 by (rule first_multiple)+
  from slice_update_pos [OF off(1) p0, of "\<lambda>_. False" block]
  obtain ys where ys: "slice_assign block off p False = Inr ys" "length ys = length block"
    "\<forall>j<length block. ys ! j =
       (if off \<le> int j \<and> (int j - off) mod p = 0 then False else block ! j)"
    unfolding slice_assign_def by auto
  have ys': "\<forall>j<length block. ys ! j = (block ! j \<and> \<not> p dvd start + int j)"
    using ys(3) block_multiple_iff [OF p0 off] by simp
  from Cons.IH [of ys] Cons.prems obtain zs where
    zs: "sieve_block_loop ys start ps = Inr zs" "length zs = length ys"
    "\<forall>j<length ys. zs ! j = (ys ! j \<and> \<not> (\<exists>p\<in>set ps. p dvd start + int j))" by auto
  have "sieve_block_loop block start (p # ps) = Inr zs"
    using p0 ys(1) zs(1) by (simp add: Let_def off_def)
  moreover have "\<forall>j<length block. zs ! j
      = (block ! j \<and> \<not> (\<exists>q\<in>set (p # ps). q dvd start + int j))"
    using ys' zs(3) ys(2) by auto
  ultimately show ?case using ys(2) zs(2) by simp
qed

lemma range_step_rec:
  assumes "0 < s"
  shows "range_step a b s = (if a < b then a # range_step (a + s) b s else [])"
proof (cases "a < b")
  case True
  define N where "N = nat ((b - a - 1) div s)"
  have n0: "0 \<le> (b - a - 1) div s" using True assms by (simp add: pos_imp_zdiv_nonneg_iff)
  have "(b - a + s - 1) div s = (b - a - 1 + s) div s" by (simp add: algebra_simps)
  also have "\<dots> = (b - a - 1) div s + 1" using assms by (intro div_add_self2) simp
  finally have "nat ((b - a + s - 1) div s) = Suc N" using n0 by (simp add: N_def)
  moreover have "nat ((b - (a + s) + s - 1) div s) = N" by (simp add: N_def)
  moreover have "[0..<Suc N] = 0 # map Suc [0..<N]"
    by (simp only: upt_conv_Cons [OF zero_less_Suc] map_Suc_upt)
  ultimately show ?thesis using True
    by (simp add: range_step_def o_def algebra_simps del: upt_Suc)
next
  case False
  then have lt: "b - a + s - 1 < s" by simp
  have "(b - a + s - 1) div s \<le> 0"
  proof (cases "b - a + s - 1 < 0")
    case True
    then have "(b - a + s - 1) div s < 0" using assms by (simp only: pos_imp_zdiv_neg_iff)
    then show ?thesis by simp
  next
    case False
    then have "(b - a + s - 1) div s = 0" using lt by (intro div_pos_pos_trivial) simp_all
    then show ?thesis by simp
  qed
  with False show ?thesis by (simp add: range_step_def)
qed

lemma map_shift_upt: "map (\<lambda>j. start + int j) [0..<len] = [start..start + int len - 1]"
proof (induction len)
  case 0
  then show ?case by simp
next
  case (Suc len)
  have "[start..start + int len] = [start..start + int len - 1] @ [start + int len]"
    by (rule upto_rec2) simp
  moreover have "start + int (Suc len) - 1 = start + int len" by simp
  ultimately show ?case using Suc by simp
qed

lemma sieve_blocks_spec:
  assumes "0 < bs" "\<forall>p\<in>set ps. 0 < p" "bs < 2 ^ 63"
  shows "sieve_blocks b ps bs (range_step lo b bs)
           = Inr (filter (\<lambda>m. \<not> (\<exists>p\<in>set ps. p dvd m)) [lo..b - 1])"
proof (induction "nat (b - lo)" arbitrary: lo rule: less_induct)
  case less
  let ?Q = "\<lambda>m. \<not> (\<exists>p\<in>set ps. p dvd m)"
  show ?case
  proof (cases "lo < b")
    case False
    then show ?thesis by (subst range_step_rec [OF assms(1)]) simp
  next
    case True
    define len where "len = nat (min bs (b - lo))"
    have len: "int len = min bs (b - lo)" using True assms(1) by (simp add: len_def)
    have ones: "np_ones (min bs (b - lo)) = Inr (replicate len True)"
      unfolding len_def using True assms(1,3) by (intro np_ones_Inr) simp_all
    from sieve_block_loop_spec [OF assms(2), of "replicate len True" lo]
    obtain block where block: "sieve_block_loop (replicate len True) lo ps = Inr block"
      "length block = len" "\<forall>j<len. block ! j = ?Q (lo + int j)" by auto
    have "flatnonzero block = map int (filter (\<lambda>j. ?Q (lo + int j)) [0..<length block])"
      using block(3) unfolding block(2) [symmetric] by (rule flatnonzero_pred)
    then have "map (\<lambda>j. lo + j) (flatnonzero block)
        = map (\<lambda>j. lo + int j) (filter (\<lambda>j. ?Q (lo + int j)) [0..<len])"
      by (simp add: block(2) o_def)
    also have "\<dots> = filter ?Q (map (\<lambda>j. lo + int j) [0..<len])"
      by (simp add: filter_map o_def)
    also have "\<dots> = filter ?Q [lo..lo + int len - 1]" by (simp only: map_shift_upt)
    finally have first: "map (\<lambda>j. lo + j) (flatnonzero block) = filter ?Q [lo..lo + int len - 1]" .
    have rest: "sieve_blocks b ps bs (range_step (lo + bs) b bs) = Inr (filter ?Q [lo + bs..b - 1])"
      using True assms(1) by (intro less) simp
    have split: "[lo..lo + int len - 1] @ [lo + bs..b - 1] = [lo..b - 1]"
    proof (cases "lo + bs \<le> b - 1")
      case True
      then have "int len = bs" unfolding len by simp
      moreover have "[lo..b - 1] = [lo..lo + bs - 1] @ [lo + bs..b - 1]"
        using assms(1) True by (intro upto_split1) simp_all
      ultimately show ?thesis by simp
    next
      case False
      then have "int len = b - lo" unfolding len by simp
      with False show ?thesis by simp
    qed
    have "sieve_blocks b ps bs (range_step lo b bs)
        = Inr (filter ?Q [lo..lo + int len - 1] @ filter ?Q [lo + bs..b - 1])"
      unfolding range_step_rec [OF assms(1), of lo] using True ones block(1) first rest by simp
    also have "filter ?Q [lo..lo + int len - 1] @ filter ?Q [lo + bs..b - 1] = filter ?Q [lo..b - 1]"
      unfolding filter_append [symmetric] split ..
    finally show ?thesis .
  qed
qed

lemma prime_below_4: "is_prime q \<and> q < 4 \<longleftrightarrow> q = 2 \<or> q = 3"
proof
  assume a: "is_prime q \<and> q < 4"
  then have "1 < q" by (simp add: is_prime_def)
  with a show "q = 2 \<or> q = 3" by auto
next
  have "is_prime 2" "is_prime 3" by (simp_all add: is_prime_def upt_conv_Cons)
  moreover assume "q = 2 \<or> q = 3"
  ultimately show "is_prime q \<and> q < 4" by auto
qed

definition small_primes :: "nat \<Rightarrow> nat list" where
  "small_primes s = 2 # 3 # filter is_prime [4..<Suc s]"

lemma small_primes_set: "set (small_primes s) = {q. is_prime q \<and> (q < 4 \<or> q \<le> s)}"
proof (intro set_eqI iffI)
  fix q assume "q \<in> set (small_primes s)"
  then have "q = 2 \<or> q = 3 \<or> (is_prime q \<and> q \<le> s)"
    by (auto simp: small_primes_def simp del: upt_Suc)
  then show "q \<in> {q. is_prime q \<and> (q < 4 \<or> q \<le> s)}"
    using prime_below_4 [of q] by auto
next
  fix q assume "q \<in> {q. is_prime q \<and> (q < 4 \<or> q \<le> s)}"
  then have q: "is_prime q" "q < 4 \<or> q \<le> s" by simp_all
  show "q \<in> set (small_primes s)"
  proof (cases "q < 4")
    case True
    with q(1) prime_below_4 [of q] show ?thesis by (auto simp: small_primes_def)
  next
    case False
    with q show ?thesis by (simp add: small_primes_def del: upt_Suc)
  qed
qed

lemma small_primes_sorted: "sorted_wrt (<) (small_primes s)"
proof -
  have "sorted_wrt (<) (filter is_prime [4..<Suc s])"
    by (intro sorted_wrt_filter) (rule sorted_wrt_upt)
  moreover have "\<forall>q\<in>set (filter is_prime [4..<Suc s]). 3 < q" by (simp del: upt_Suc)
  ultimately show ?thesis unfolding small_primes_def by (auto simp del: upt_Suc)
qed

lemma sieve_interval_primes:
  assumes "1 \<le> b" "b < 2 ^ 63"
  shows "sieve_interval 2 b = Inr (map int (filter is_prime [2..<nat b]))"
proof -
  define bn where "bn = nat b"
  define s where "s = nat (isqrt (int bn))"
  have b: "b = int bn" using assms(1) by (simp add: bn_def)
  have s: "isqrt (int bn) = int s" "s\<^sup>2 \<le> bn" "bn < (Suc s)\<^sup>2"
    unfolding s_def by (rule isqrt_nat)+
  have s1: "1 \<le> s"
  proof (rule ccontr)
    assume "\<not> 1 \<le> s"
    then have "s = 0" by simp
    with s(3) assms(1) show False by (simp add: bn_def)
  qed
  have "s * 1 \<le> s * s" using s1 by (intro mult_left_mono) simp_all
  also have "\<dots> \<le> bn" using s(2) by (simp add: power2_eq_square)
  finally have "s \<le> bn" by simp
  then have s63: "int s < 2 ^ 63" using assms(2) unfolding b by simp
  define small where "small = map int (small_primes s)"
  let ?Q = "\<lambda>m. \<not> (\<exists>p\<in>set small. p dvd m)"
  let ?P = "\<lambda>p. 2 \<le> p \<and> p < b"
  have small_iff: "x \<in> set small \<longleftrightarrow> (\<exists>q. x = int q \<and> is_prime q \<and> (q < 4 \<or> q \<le> s))" for x
    unfolding small_def set_map small_primes_set by auto
  have pos: "\<forall>p\<in>set small. 0 < p"
  proof
    fix p assume "p \<in> set small"
    then obtain q where "p = int q" "is_prime q" unfolding small_iff by blast
    then show "0 < p" by (simp add: is_prime_def)
  qed
  have sqrt: "integer_sqrt b = Inr (int s)"
    using isqrt_props(1) [of b] assms(1) s(1) unfolding b by simp
  have luo: "luo (int s) = Inr small"
    unfolding small_def small_primes_def using luo_correct [OF s1 s63] by simp
  have blocks: "sieve_blocks b small (10 ^ 6) (range_step (int s + 1) b (10 ^ 6))
      = Inr (filter ?Q [int s + 1..b - 1])"
    using pos by (intro sieve_blocks_spec) simp_all
  have mx: "max (int s + 1) 2 = int s + 1" using s1 by simp
  have run: "sieve_interval 2 b = Inr (filter ?P small @ filter ?Q [int s + 1..b - 1])"
    unfolding sieve_interval_def sqrt bind_err_simps luo Let_def mx blocks ..
  have two_three: "2 \<in> set small" "3 \<in> set small"
    unfolding small_iff using prime_below_4 [of 2] prime_below_4 [of 3]
    by (metis of_nat_numeral)+
  have sieved_prime: "is_prime (nat x)" if x: "int s + 1 \<le> x" "x \<le> b - 1" "?Q x" for x
  proof (rule ccontr)
    assume np: "\<not> is_prime (nat x)"
    have m1: "1 < nat x" using x(1) s1 by simp
    from small_prime_factor [OF m1 np] obtain p where
      p: "is_prime p" "p dvd nat x" "p\<^sup>2 \<le> nat x" by blast
    have "p \<le> s"
    proof (rule ccontr)
      assume "\<not> p \<le> s"
      then have "Suc s \<le> p" by simp
      then have "(Suc s)\<^sup>2 \<le> p\<^sup>2" by (rule power_mono) simp
      moreover have "nat x < bn" using x(2) m1 by (simp add: bn_def)
      ultimately show False using p(3) s(3) by linarith
    qed
    then have "int p \<in> set small" unfolding small_iff using p(1) by blast
    moreover have "int p dvd x"
    proof -
      have "int p dvd int (nat x)" using p(2) by (simp only: int_dvd_int_iff)
      then show ?thesis using m1 by simp
    qed
    ultimately show False using x(3) by blast
  qed
  have "filter ?P small @ filter ?Q [int s + 1..b - 1] = map int (filter is_prime [2..<nat b])"
  proof (rule strict_sorted_equal)
    have "sorted_wrt (<) (filter is_prime [2..<nat b])"
      by (intro sorted_wrt_filter) (rule sorted_wrt_upt)
    then show "sorted_wrt (<) (map int (filter is_prime [2..<nat b]))"
      by (simp add: sorted_wrt_map)
    have "sorted_wrt (<) small"
      unfolding small_def using small_primes_sorted [of s] by (simp add: sorted_wrt_map)
    then have a: "sorted_wrt (<) (filter ?P small)" by (rule sorted_wrt_filter)
    have c: "sorted_wrt (<) (filter ?Q [int s + 1..b - 1])"
      by (intro sorted_wrt_filter) (rule sorted_wrt_upto)
    have d: "x < y" if "x \<in> set (filter ?P small)" "y \<in> set (filter ?Q [int s + 1..b - 1])" for x y
    proof -
      from that(1) obtain q where q: "x = int q" "is_prime q" "q < 4 \<or> q \<le> s"
        using small_iff [of x] by auto
      from that(2) have y: "int s + 1 \<le> y" "?Q y" by simp_all
      have "y \<noteq> 2" "y \<noteq> 3" using y(2) two_three by auto
      then have "3 < y \<or> y \<le> 1" by linarith
      with y(1) s1 have y3: "3 < y" by simp
      show "x < y"
      proof (cases "q \<le> s")
        case True
        with y(1) q(1) show ?thesis by simp
      next
        case False
        with q(3) have "q < 4" by simp
        with y3 q(1) show ?thesis by simp
      qed
    qed
    show "sorted_wrt (<) (filter ?P small @ filter ?Q [int s + 1..b - 1])"
      unfolding sorted_wrt_append using a c d by blast
    show "set (filter ?P small @ filter ?Q [int s + 1..b - 1])
        = set (map int (filter is_prime [2..<nat b]))"
    proof (intro set_eqI iffI)
      fix x assume "x \<in> set (filter ?P small @ filter ?Q [int s + 1..b - 1])"
      then consider "x \<in> set small" "2 \<le> x" "x < b"
        | "int s + 1 \<le> x" "x \<le> b - 1" "?Q x" by auto
      then have "is_prime (nat x) \<and> 2 \<le> nat x \<and> nat x < nat b \<and> 0 \<le> x"
      proof cases
        case 1
        from 1(1) obtain q where "x = int q" "is_prime q" unfolding small_iff by blast
        with 1(2,3) show ?thesis by simp
      next
        case 2
        have "is_prime (nat x)" using 2 by (rule sieved_prime)
        with 2(1,2) s1 show ?thesis by simp
      qed
      then have "nat x \<in> set (filter is_prime [2..<nat b])" "x = int (nat x)" by simp_all
      then show "x \<in> set (map int (filter is_prime [2..<nat b]))"
        unfolding set_map by (rule image_eqI [rotated, OF _ sym] rev_image_eqI)+
    next
      fix x assume "x \<in> set (map int (filter is_prime [2..<nat b]))"
      then obtain p where p: "x = int p" "is_prime p" "2 \<le> p" "p < nat b" by auto
      have xb: "x < b" using p(1,4) by linarith
      show "x \<in> set (filter ?P small @ filter ?Q [int s + 1..b - 1])"
      proof (cases "x \<in> set small")
        case True
        with p(1,3) xb show ?thesis by simp
      next
        case False
        then have n: "\<not> (p < 4 \<or> p \<le> s)" unfolding small_iff using p(1,2) by blast
        have "?Q x"
        proof
          assume "\<exists>q\<in>set small. q dvd x"
          then obtain q' where q': "q' \<in> set small" "q' dvd x" by blast
          from q'(1) obtain q where qq: "q' = int q" "is_prime q" unfolding small_iff by blast
          have q: "int q \<in> set small" "is_prime q" "int q dvd int p"
            using q' qq p(1) by simp_all
          from q(3) have "q dvd p" by (simp only: int_dvd_int_iff)
          then have "q = 1 \<or> q = p" using p(2) unfolding is_prime_iff by blast
          with q(2) have "q = p" by (auto simp: is_prime_def)
          with q(1) False p(1) show False by simp
        qed
        moreover have "int s + 1 \<le> x" "x \<le> b - 1" using n p(1) xb by simp_all
        ultimately show ?thesis by simp
      qed
    qed
  qed
  with run show ?thesis by simp
qed

lemma sieve_interval_eratosthenes:
  assumes "2 \<le> b" "b < 2 ^ 63"
  shows "sieve_interval 2 b = eratosthenes (b - 1)"
proof -
  have "eratosthenes (b - 1) = Inr (map int (primes_upto (nat (b - 1))))"
    using assms by (intro eratosthenes_correct) simp_all
  moreover have "Suc (nat (b - 1)) = nat b" using assms(1) by simp
  moreover have "sieve_interval 2 b = Inr (map int (filter is_prime [2..<nat b]))"
    using assms by (intro sieve_interval_primes) simp_all
  ultimately show ?thesis by (simp add: primes_upto_def del: upt_Suc)
qed

section \<open>The claims\<close>

text \<open>
  Claim C3. For \<open>n \<ge> 0\<close> and \<open>k \<ge> 1\<close>, \<open>integer_kth_root n k\<close> returns (raises
  nothing) and the value \<open>m\<close> it returns satisfies \<open>m^k \<le> n < (m+1)^k\<close>; no other
  non-negative integer does. The same holds for \<open>integer_sqrt\<close> with \<open>k = 2\<close>. The
  model is on unbounded integers and uses integer operations only, as the source does, so
  the statement holds for arbitrarily large \<open>n\<close>.
\<close>

theorem integer_root_floor:
  assumes "0 \<le> n" and "1 \<le> k"
  shows "(\<exists>m. integer_kth_root n k = Inr m \<and> 0 \<le> m \<and> m ^ nat k \<le> n \<and> n < (m + 1) ^ nat k
          \<and> (\<forall>m'. 0 \<le> m' \<and> m' ^ nat k \<le> n \<and> n < (m' + 1) ^ nat k \<longrightarrow> m' = m))
       \<and> (\<exists>m. integer_sqrt n = Inr m \<and> 0 \<le> m \<and> m\<^sup>2 \<le> n \<and> n < (m + 1)\<^sup>2
          \<and> (\<forall>m'. 0 \<le> m' \<and> m'\<^sup>2 \<le> n \<and> n < (m' + 1)\<^sup>2 \<longrightarrow> m' = m))"
proof (rule conjI)
  from integer_kth_root_correct [OF assms] obtain m where
    m: "integer_kth_root n k = Inr m" "0 \<le> m" "m ^ nat k \<le> n" "n < (m + 1) ^ nat k"
    unfolding is_floor_root_def by blast
  then show "\<exists>m. integer_kth_root n k = Inr m \<and> 0 \<le> m \<and> m ^ nat k \<le> n \<and> n < (m + 1) ^ nat k
          \<and> (\<forall>m'. 0 \<le> m' \<and> m' ^ nat k \<le> n \<and> n < (m' + 1) ^ nat k \<longrightarrow> m' = m)"
    using floor_root_unique [of m "nat k" n] by blast
  from integer_sqrt_correct [OF assms(1)] obtain s where
    s: "integer_sqrt n = Inr s" "0 \<le> s" "s\<^sup>2 \<le> n" "n < (s + 1)\<^sup>2"
    unfolding is_floor_root_def by blast
  then show "\<exists>m. integer_sqrt n = Inr m \<and> 0 \<le> m \<and> m\<^sup>2 \<le> n \<and> n < (m + 1)\<^sup>2
          \<and> (\<forall>m'. 0 \<le> m' \<and> m'\<^sup>2 \<le> n \<and> n < (m' + 1)\<^sup>2 \<longrightarrow> m' = m)"
    using floor_root_unique [of s 2 n] by blast
qed

text \<open>The theorem at \<open>n = 100\<close>, \<open>k = 3\<close>.\<close>

theorem integer_root_floor_witness:
  "(0::int) \<le> 100 \<and> (1::int) \<le> 3
   \<and> (\<exists>m. integer_kth_root 100 3 = Inr m \<and> 0 \<le> m \<and> m ^ 3 \<le> 100 \<and> 100 < (m + 1) ^ 3)
   \<and> (\<exists>m. integer_sqrt 100 = Inr m \<and> 0 \<le> m \<and> m\<^sup>2 \<le> 100 \<and> 100 < (m + 1)\<^sup>2)"
  using integer_root_floor [of 100 3] by (simp add: eval_nat_numeral) blast

text \<open>
  Claim C6 as stated fails at \<open>n = 0\<close>: \<open>newton\<close> and \<open>binary\<close> step from \<open>1\<close> to
  \<open>0\<close> and then divide by it, while \<open>integer_sqrt\<close> returns \<open>0\<close> from its guard.
\<close>

theorem sqrt_variants_zero:
  "newton 0 = Inl ZeroDivisionError \<and> binary 0 = Inl ZeroDivisionError
   \<and> integer_sqrt 0 = Inr 0 \<and> newton 0 \<noteq> integer_sqrt 0 \<and> binary 0 \<noteq> integer_sqrt 0"
  by (simp add: newton_def binary_def integer_sqrt_def newton_loop.simps binary_loop.simps)

text \<open>
  Claim C6, amended: for every \<open>n \<ge> 1\<close> (the range the notebook's own assertions
  cover) the three formulations return the same value, which is the floor square root.
\<close>

theorem sqrt_variants_agree:
  assumes "1 \<le> n"
  shows "newton n = binary n \<and> binary n = integer_sqrt n
         \<and> (\<exists>m. integer_sqrt n = Inr m \<and> 0 \<le> m \<and> m\<^sup>2 \<le> n \<and> n < (m + 1)\<^sup>2)"
  using assms newton_correct [OF assms]
  by (simp add: integer_sqrt_eq_binary binary_eq_newton is_floor_root_def)

text \<open>The theorem at \<open>n = 10\<close>.\<close>

theorem sqrt_variants_agree_witness:
  "(1::int) \<le> 10 \<and> newton 10 = binary 10 \<and> binary 10 = integer_sqrt 10
   \<and> (\<exists>m. integer_sqrt 10 = Inr m \<and> 0 \<le> m \<and> m\<^sup>2 \<le> 10 \<and> 10 < (m + 1)\<^sup>2)"
  using sqrt_variants_agree [of 10] by simp

text \<open>
  Claim C8 as stated fails at \<open>n = 2\<close>, \<open>k = 2\<close>: the bit length \<open>2\<close> is a multiple of
  \<open>k\<close>, the source starts from \<open>2^(2 div 2 + 1) = 4\<close>, and \<open>2^ceil(2/2) = 2\<close>.
\<close>

theorem kth_root_start_differs:
  "kth_root_start 2 2 = 4 \<and> kth_root_start_spec 2 2 = 2
   \<and> kth_root_start 2 2 \<noteq> kth_root_start_spec 2 2"
  by (simp add: kth_root_start_def kth_root_start_spec_def)

text \<open>
  Claim C8, amended: for \<open>n \<ge> 2\<close> and \<open>k \<ge> 2\<close> \<open>integer_kth_root\<close> runs its loop from
  the start value \<open>kth_root_start n k = 2^(floor(bitlen(n)/k) + 1)\<close>, which is
  \<open>2^ceil(bitlen(n)/k)\<close> unless \<open>k\<close> divides the bit length, and then twice that; its
  \<open>k\<close>-th power is above \<open>n\<close>, so it is above the floor root; one pass of the loop
  computes \<open>kth_root_step\<close>, \<open>x \<mapsto> ((k-1) x + n div x^(k-1)) div k\<close>, goes on with
  it when it is smaller than \<open>x\<close> and returns \<open>x\<close> otherwise; from the start value the
  iterates strictly decrease up to some index \<open>i\<close>, the next one is not smaller, and the
  value returned is iterate \<open>i\<close>, the floor root.
\<close>

theorem kth_root_iteration:
  assumes "2 \<le> n" and "2 \<le> k"
  defines "x0 \<equiv> kth_root_start n k"
  defines "step \<equiv> kth_root_step (nat n) (nat k)"
  defines "loop \<equiv> kth_root_loop (nat n) (nat k)"
  shows "integer_kth_root n k = map_sum id int (loop x0)
       \<and> x0 = 2 ^ nat (bit_length n div k + 1)
       \<and> x0 = (if k dvd bit_length n then 2 * kth_root_start_spec n k
                else kth_root_start_spec n k)
       \<and> nat n < x0 ^ nat k
       \<and> (\<forall>x. step x = ((nat k - 1) * x + nat n div x ^ (nat k - 1)) div nat k)
       \<and> (\<forall>x>0. loop x = (if step x < x then loop (step x) else Inr x))
       \<and> (\<exists>i. loop x0 = Inr ((step ^^ i) x0)
              \<and> (\<forall>j<i. (step ^^ Suc j) x0 < (step ^^ j) x0)
              \<and> \<not> (step ^^ Suc i) x0 < (step ^^ i) x0
              \<and> ((step ^^ i) x0) ^ nat k \<le> nat n \<and> nat n < ((step ^^ i) x0 + 1) ^ nat k)"
proof -
  have a: "integer_kth_root n k = map_sum id int (loop x0)"
    using assms(1,2) unfolding loop_def x0_def by (simp add: integer_kth_root_def)
  have b: "x0 = 2 ^ nat (bit_length n div k + 1)"
    unfolding x0_def kth_root_start_def ..
  have c: "x0 = (if k dvd bit_length n then 2 * kth_root_start_spec n k
                 else kth_root_start_spec n k)"
    unfolding x0_def using assms(2) by (intro kth_root_start_vs_spec) simp
  have up: "nat n < x0 ^ nat k"
    unfolding x0_def using assms(1,2) by (intro kth_root_start_upper) auto
  have d: "\<forall>x. step x = ((nat k - 1) * x + nat n div x ^ (nat k - 1)) div nat k"
    unfolding step_def kth_root_step_def by simp
  have e: "\<forall>x>0. loop x = (if step x < x then loop (step x) else Inr x)"
  proof (intro allI impI)
    fix x :: nat assume "0 < x"
    then have "\<not> (x ^ (nat k - 1) = 0 \<or> nat k = 0)" using assms(2) by simp
    then show "loop x = (if step x < x then loop (step x) else Inr x)"
      unfolding loop_def step_def by (subst kth_root_loop.simps) (simp add: Let_def)
  qed
  have "nat n < (x0 + 1) ^ nat k"
    using up power_mono [of x0 "x0 + 1" "nat k"] by simp
  then obtain m where m: "loop x0 = Inr m" "m ^ nat k \<le> nat n" "nat n < (m + 1) ^ nat k"
    using kth_root_loop_correct [of "nat k" "nat n" x0] assms(1,2)
      kth_root_start_pos [of n k] unfolding x0_def loop_def by auto
  from kth_root_loop_trace [OF m(1) [unfolded loop_def]] obtain i where
    i: "m = (step ^^ i) x0" "\<forall>j<i. (step ^^ Suc j) x0 < (step ^^ j) x0" "\<not> step m < m"
    unfolding step_def by blast
  have f: "\<exists>i. loop x0 = Inr ((step ^^ i) x0)
              \<and> (\<forall>j<i. (step ^^ Suc j) x0 < (step ^^ j) x0)
              \<and> \<not> (step ^^ Suc i) x0 < (step ^^ i) x0
              \<and> ((step ^^ i) x0) ^ nat k \<le> nat n \<and> nat n < ((step ^^ i) x0 + 1) ^ nat k"
    using i m by (intro exI [of _ i]) simp
  from a b c up d e f show ?thesis by blast
qed

text \<open>
  The theorem at \<open>n = 100\<close>, \<open>k = 3\<close>: the bit length is \<open>7\<close>, the loop starts from
  \<open>2^3 = 8\<close> and returns \<open>4\<close>.
\<close>

theorem kth_root_iteration_witness:
  "(2::int) \<le> 100 \<and> (2::int) \<le> 3
   \<and> integer_kth_root 100 3 = Inr 4
   \<and> integer_kth_root 100 3 = map_sum id int (kth_root_loop 100 3 (kth_root_start 100 3))
   \<and> kth_root_start 100 3 = 8
   \<and> (\<exists>i. kth_root_loop 100 3 (kth_root_start 100 3)
            = Inr ((kth_root_step 100 3 ^^ i) (kth_root_start 100 3)))"
proof -
  have h: "(2::int) \<le> 100" "(2::int) \<le> 3" by simp_all
  note t = kth_root_iteration [OF h]
  have a: "integer_kth_root 100 3 = map_sum id int (kth_root_loop 100 3 (kth_root_start 100 3))"
    using t [THEN conjunct1] by simp
  have bl: "bit_length 100 = 7" by code_simp
  have b: "kth_root_start 100 3 = 8"
    using t [THEN conjunct2, THEN conjunct1] by (simp add: bl)
  have c: "\<exists>i. kth_root_loop 100 3 (kth_root_start 100 3)
            = Inr ((kth_root_step 100 3 ^^ i) (kth_root_start 100 3))"
    using t [THEN conjunct2, THEN conjunct2, THEN conjunct2, THEN conjunct2, THEN conjunct2,
      THEN conjunct2] by simp blast
  have r: "integer_kth_root 100 3 = Inr 4" using a by code_simp
  from h a b c r show ?thesis by blast
qed

text \<open>
  Claim C10. Whatever top-level calls came before, \<open>Q_memo(x)\<close> returns the same result:
  for any two call histories \<open>ys\<close> and \<open>zs\<close>, both starting from the cache \<open>{1: 1}\<close>
  of the \<open>def\<close> statement, the call on the cache left by \<open>ys\<close> and the call on the
  cache left by \<open>zs\<close> give the same value or the same exception. The retained cache
  changes no returned value. (The other entry points keep no state between calls: each
  is a function of its arguments alone in the source and in the model.)
\<close>

theorem Q_memo_deterministic:
  "fst (Q_memo x (Q_memo_calls ys Q_memo_cache0)) = fst (Q_memo x (Q_memo_calls zs Q_memo_cache0))"
  by (simp add: Q_memo_value cache_ok_calls cache_ok_initial)

text \<open>
  Claim C9. For \<open>x \<ge> 2\<close> the list \<open>V\<close> that \<open>Q_dp\<close> builds contains \<open>x\<close>, and for every
  \<open>k\<close> in \<open>V\<close> and every \<open>l\<close> with \<open>2 \<le> l \<le> integer_sqrt(k)\<close> the key \<open>k div l^2\<close> is
  in \<open>V\<close> (so it was seeded) and is smaller than \<open>k\<close> (so the ascending pass has
  finished it); \<open>Q_dp\<close> returns a value, so no lookup raises \<open>KeyError\<close>.
\<close>

theorem Q_dp_values_closed:
  assumes "2 \<le> x"
  shows "\<exists>V. Q_dp_V x = Inr V \<and> x \<in> set V
           \<and> (\<forall>k\<in>set V. \<forall>r. integer_sqrt k = Inr r \<longrightarrow>
                 (\<forall>l. 2 \<le> l \<and> l \<le> r \<longrightarrow> k div l\<^sup>2 \<in> set V \<and> k div l\<^sup>2 < k))
           \<and> (\<exists>v. Q_dp x = Inr v)"
proof -
  from assms have "1 \<le> x" by simp
  from Q_dp_V_spec [OF this] obtain V where V: "Q_dp_V x = Inr V" "x \<in> set V"
    "\<forall>v\<in>set V. \<forall>l. 2 \<le> l \<longrightarrow> v div l\<^sup>2 \<in> set V" by blast
  have "\<forall>k\<in>set V. \<forall>r. integer_sqrt k = Inr r \<longrightarrow>
                 (\<forall>l. 2 \<le> l \<and> l \<le> r \<longrightarrow> k div l\<^sup>2 \<in> set V \<and> k div l\<^sup>2 < k)"
  proof (intro ballI allI impI)
    fix k r l assume k: "k \<in> set V" and r: "integer_sqrt k = Inr r" and l: "2 \<le> l \<and> l \<le> r"
    have "r\<^sup>2 \<le> k" using integer_sqrt_Inr [OF r] by simp
    with l have "k div l\<^sup>2 < k" by (intro square_div_less(2) [of l r k]) auto
    moreover have "k div l\<^sup>2 \<in> set V" using V(3) k l by simp
    ultimately show "k div l\<^sup>2 \<in> set V \<and> k div l\<^sup>2 < k" by simp
  qed
  moreover have "\<exists>v. Q_dp x = Inr v" using Q_dp_correct [of x] assms by simp
  ultimately show ?thesis using V(1,2) by blast
qed




text \<open>Claim C9's theorem at \<open>x = 100\<close>.\<close>

theorem Q_dp_values_closed_witness:
  "(2::int) \<le> 100 \<and> (\<exists>V. Q_dp_V 100 = Inr V \<and> 100 \<in> set V \<and> (\<exists>v. Q_dp 100 = Inr v))"
  using Q_dp_values_closed [of 100] by simp blast

text \<open>
  Claim C4 fails below \<open>2\<close>: \<open>eratosthenes(0)\<close> raises \<open>IndexError\<close> at \<open>block[1]\<close> (the
  block has one entry), \<open>eratosthenes2(0)\<close> raises it at \<open>block[0]\<close> (the block is
  empty), and \<open>eratosthenes2(1)\<close> returns \<open>[2]\<close>, although \<open>2 > 1\<close>.
\<close>

theorem sieve_small_bounds:
  "eratosthenes 0 = Inl IndexError \<and> eratosthenes2 0 = Inl IndexError \<and> eratosthenes2 1 = Inr [2]"
  by (simp add: eratosthenes_def eratosthenes2_def np_ones_def set_item_def norm_index_def
      integer_sqrt_def range_step_def flatnonzero_def)

text \<open>
  Claim C2. For every \<open>x \<ge> 0\<close> the memoized form, on the cache that any sequence of
  earlier calls has left, returns \<open>Qcount x\<close>, the number of integers \<open>m\<close> in \<open>1..x\<close>
  that no square \<open>d^2\<close> with \<open>d > 1\<close> divides; so does the full sieve for every \<open>x\<close>
  below \<open>2^63 - 1\<close>, the lengths \<open>x + 1\<close> that \<open>np.ones\<close> accepts; the count is
  \<open>0\<close> at \<open>0\<close>, \<open>7\<close> at \<open>10\<close> and \<open>13\<close> at \<open>20\<close>.
\<close>

theorem count_squarefree_correct:
  assumes "0 \<le> x"
  shows "fst (Q_memo x (Q_memo_calls ys Q_memo_cache0)) = Inr (int (Qcount (nat x)))
       \<and> (x < 2 ^ 63 - 1 \<longrightarrow> Q_sieve x = Inr (int (Qcount (nat x))))
       \<and> Qcount (nat x) = card {m \<in> {1..nat x}. 0 < m \<and> (\<forall>d. 1 < d \<longrightarrow> \<not> d\<^sup>2 dvd m)}
       \<and> Qcount 0 = 0 \<and> Qcount 10 = 7 \<and> Qcount 20 = 13"
proof -
  have "fst (Q_memo x (Q_memo_calls ys Q_memo_cache0)) = Inr (Qrec x)"
    using assms by (simp add: Q_memo_value cache_ok_calls cache_ok_initial)
  then have a: "fst (Q_memo x (Q_memo_calls ys Q_memo_cache0)) = Inr (int (Qcount (nat x)))"
    using assms by (simp add: Qrec_nonneg_eq)
  have b: "x < 2 ^ 63 - 1 \<longrightarrow> Q_sieve x = Inr (int (Qcount (nat x)))"
    using assms Q_sieve_correct by blast
  have "{m \<in> {1..nat x}. squarefree m} = {m \<in> {1..nat x}. 0 < m \<and> (\<forall>d. 1 < d \<longrightarrow> \<not> d\<^sup>2 dvd m)}"
    by (simp only: squarefree_iff)
  then have c: "Qcount (nat x) = card {m \<in> {1..nat x}. 0 < m \<and> (\<forall>d. 1 < d \<longrightarrow> \<not> d\<^sup>2 dvd m)}"
    by (simp only: Qcount_card)
  from a b c Qcount_0 Qcount_10 Qcount_20 show ?thesis by blast
qed

text \<open>The theorem at \<open>x = 10\<close>, \<open>20\<close> and \<open>0\<close>: the functions return \<open>7\<close>, \<open>13\<close> and \<open>0\<close>.\<close>

theorem count_squarefree_correct_witness:
  "fst (Q_memo 10 Q_memo_cache0) = Inr 7 \<and> Q_sieve 10 = Inr 7
   \<and> fst (Q_memo 20 (Q_memo_calls [10] Q_memo_cache0)) = Inr 13 \<and> Q_sieve 20 = Inr 13
   \<and> fst (Q_memo 0 Q_memo_cache0) = Inr 0 \<and> Q_sieve 0 = Inr 0"
  using count_squarefree_correct [of 10 "[]"] count_squarefree_correct [of 20 "[10]"]
    count_squarefree_correct [of 0 "[]"]
  by (simp add: Q_memo_calls_def)

text \<open>
  Claim C1. For every \<open>x\<close> with \<open>0 \<le> x \<le> 10^6\<close> the memoized form (on the cache left by
  any sequence of earlier calls), the bottom-up form and the Moebius-weighted sieve return
  what the full sieve \<open>Q_sieve\<close> returns, and that is the number of squarefree integers
  in \<open>1..x\<close>. In this range every entry of the Moebius block lies between \<open>-10^6\<close> and
  \<open>10^6\<close>, so NumPy's 64-bit entries agree with the unbounded integers of the model.
\<close>

theorem counting_forms_agree:
  assumes "0 \<le> x" and "x \<le> 10 ^ 6"
  shows "fst (Q_memo x (Q_memo_calls ys Q_memo_cache0)) = Q_sieve x
       \<and> Q_dp x = Q_sieve x \<and> Q_moebius x = Q_sieve x
       \<and> Q_sieve x = Inr (int (Qcount (nat x)))"
proof -
  have "fst (Q_memo x (Q_memo_calls ys Q_memo_cache0)) = Inr (Qrec x)"
    using assms(1) by (simp add: Q_memo_value cache_ok_calls cache_ok_initial)
  moreover have "Q_dp x = Inr (Qrec x)" using assms(1) by (rule Q_dp_correct)
  moreover have "Qrec x = int (Qcount (nat x))" using assms(1) by (rule Qrec_nonneg_eq)
  moreover have "Q_moebius x = Inr (int (Qcount (nat x)))"
    using assms by (intro Q_moebius_correct) simp_all
  moreover have "Q_sieve x = Inr (int (Qcount (nat x)))"
    using assms by (intro Q_sieve_correct) simp_all
  ultimately show ?thesis by simp
qed

text \<open>The theorem at \<open>x = 10\<close>, where all four return \<open>7\<close>.\<close>

theorem counting_forms_agree_witness:
  "(0::int) \<le> 10 \<and> (10::int) \<le> 10 ^ 6
   \<and> fst (Q_memo 10 Q_memo_cache0) = Inr 7 \<and> Q_dp 10 = Inr 7 \<and> Q_moebius 10 = Inr 7
   \<and> Q_sieve 10 = Inr 7"
  using counting_forms_agree [of 10 "[]"] Qcount_10
  by (simp add: Q_memo_calls_def)

text \<open>
  Claim C7 fails as written, with the bound \<open>n\<close> passed as the end of the interval: the
  interval of \<open>sieve_interval(a, b)\<close> is half-open, \<open>a \<le> p < b\<close>, so
  \<open>sieve_interval(2, n)\<close> leaves out \<open>n\<close> when \<open>n\<close> is prime. At \<open>n = 2\<close> it yields
  nothing and at \<open>n = 7\<close> it yields \<open>[2, 3, 5]\<close>, while \<open>eratosthenes\<close> returns \<open>[2]\<close> and
  \<open>[2, 3, 5, 7]\<close>.
\<close>

theorem segmented_sieve_half_open:
  "sieve_interval 2 2 = Inr [] \<and> eratosthenes 2 = Inr [2]
   \<and> sieve_interval 2 7 = Inr [2, 3, 5] \<and> eratosthenes 7 = Inr [2, 3, 5, 7]"
  by code_simp

text \<open>
  Claim C7, amended. For every \<open>n\<close> with \<open>2 \<le> n < 2^63 - 1\<close> the segmented sieve run
  with the exclusive end \<open>n + 1\<close>, that is over the closed interval \<open>[2, n]\<close>, yields
  exactly the ordered list that \<open>eratosthenes(n)\<close> returns, the primes \<open>p \<le> n\<close> in
  increasing order; run with the end \<open>n\<close> it yields the list of \<open>eratosthenes(n - 1)\<close>,
  the primes below \<open>n\<close>. The upper bound is the range in which \<open>np.ones\<close> accepts the
  \<open>n + 1\<close> flags of \<open>eratosthenes\<close> and in which the 64-bit sums \<open>start + nonzero\<close> of the
  segmented sieve are exact.
\<close>

theorem segmented_sieve_agrees:
  assumes "2 \<le> n" and "n < 2 ^ 63 - 1"
  shows "sieve_interval 2 (n + 1) = eratosthenes n
       \<and> sieve_interval 2 n = eratosthenes (n - 1)
       \<and> eratosthenes n = Inr (map int (primes_upto (nat n)))"
proof -
  have "sieve_interval 2 (n + 1) = eratosthenes (n + 1 - 1)"
    using assms by (intro sieve_interval_eratosthenes) simp_all
  then have a: "sieve_interval 2 (n + 1) = eratosthenes n" by simp
  have b: "sieve_interval 2 n = eratosthenes (n - 1)"
    using assms by (intro sieve_interval_eratosthenes) simp_all
  have c: "eratosthenes n = Inr (map int (primes_upto (nat n)))"
    using assms by (intro eratosthenes_correct) simp_all
  from a b c show ?thesis by blast
qed

text \<open>The theorem at \<open>n = 30\<close>: both sieves give the ten primes up to \<open>29\<close>.\<close>

theorem segmented_sieve_agrees_witness:
  "(2::int) \<le> 30 \<and> (30::int) < 2 ^ 63 - 1
   \<and> sieve_interval 2 31 = Inr [2, 3, 5, 7, 11, 13, 17, 19, 23, 29]
   \<and> sieve_interval 2 30 = eratosthenes 29
   \<and> eratosthenes 30 = Inr [2, 3, 5, 7, 11, 13, 17, 19, 23, 29]"
proof -
  have e: "eratosthenes 30 = Inr [2, 3, 5, 7, 11, 13, 17, 19, 23, 29]" by code_simp
  show ?thesis using segmented_sieve_agrees [of 30] e by simp
qed

end

